theory Spec2Isabelle
  imports Complex_Main "HOL-Library.Word"
begin

section \<open>JavaScript strings\<close>

text \<open>
  A JavaScript string is a sequence of UTF-16 code units, and \<^verbatim>\<open>.length\<close> counts code
  units. The Korean literals of the source are written as their code units: the
  interlude marker (the word "ganju" in parentheses) is \<open>[0x28, 0xAC04, 0xC8FC, 0x29]\<close>
  and the closing word "amen" is \<open>[0xC544, 0xBA58]\<close>.
\<close>

type_synonym code_unit = "16 word"
type_synonym jsstring = "code_unit list"

text \<open>
  The characters matched by the regular expression class \<^verbatim>\<open>\s\<close> and stripped by
  \<^verbatim>\<open>String.prototype.trim\<close>: ECMAScript WhiteSpace and LineTerminator.
\<close>

definition is_space :: "code_unit \<Rightarrow> bool" where
  "is_space c \<longleftrightarrow>
     c \<in> set [0x09, 0x0A, 0x0B, 0x0C, 0x0D, 0x20, 0xA0, 0x1680,
               0x2028, 0x2029, 0x202F, 0x205F, 0x3000, 0xFEFF]
     \<or> (0x2000 \<le> c \<and> c \<le> 0x200A)"

text \<open>\<^verbatim>\<open>s.trim()\<close>\<close>

definition trim :: "jsstring \<Rightarrow> jsstring" where
  "trim s = rev (dropWhile is_space (rev (dropWhile is_space s)))"

text \<open>
  \<^verbatim>\<open>s.split(/\s+/)\<close>: the pieces between maximal runs of white space. The empty string
  gives one empty piece; leading or trailing white space gives an empty first or last piece.
\<close>

function split_ws :: "jsstring \<Rightarrow> jsstring list" where
  "split_ws s =
     (let tok = takeWhile (\<lambda>c. \<not> is_space c) s;
          rest = dropWhile (\<lambda>c. \<not> is_space c) s
      in if rest = [] then [tok] else tok # split_ws (dropWhile is_space rest))"
  by pat_completeness auto

termination split_ws
proof (relation "measure length", goal_cases)
  case 1
  show ?case by simp
next
  case (2 s tok rest)
  have shorter: "length (dropWhile P (dropWhile (\<lambda>c. \<not> P c) xs)) < length xs"
    if ne: "dropWhile (\<lambda>c. \<not> P c) xs \<noteq> []" for P :: "code_unit \<Rightarrow> bool" and xs
  proof -
    obtain c cs where r: "dropWhile (\<lambda>c. \<not> P c) xs = c # cs"
      using ne by (cases "dropWhile (\<lambda>c. \<not> P c) xs") auto
    have "P c"
      using hd_dropWhile [of "\<lambda>c. \<not> P c" xs] ne r by simp
    then have "length (dropWhile P (c # cs)) \<le> length cs"
      by (simp add: length_dropWhile_le)
    moreover have "length (c # cs) \<le> length xs"
      using length_dropWhile_le [of "\<lambda>c. \<not> P c" xs] r by simp
    ultimately show ?thesis using r by simp
  qed
  from 2 shorter [of is_space s] show ?case by simp
qed

declare split_ws.simps [simp del]

text \<open>\<^verbatim>\<open>words.join(" ")\<close>\<close>

fun join :: "jsstring list \<Rightarrow> jsstring" where
  "join [] = []"
| "join [w] = w"
| "join (w # v # ws) = w @ [0x20] @ join (v # ws)"

section \<open>Lyrics segmenter (js/lyrics\_utils\_hall.js)\<close>

definition interlude :: jsstring where
  "interlude = [0x28, 0xAC04, 0xC8FC, 0x29]"

definition amen :: jsstring where
  "amen = [0xC544, 0xBA58]"

text \<open>
  \<^verbatim>\<open>if (buffer.length) segments.push(buffer.splice(0));\<close>
  \<^verbatim>\<open>splice(0)\<close> empties the buffer and returns its former contents.
\<close>

definition flush :: "jsstring list list \<Rightarrow> jsstring list \<Rightarrow> jsstring list list \<times> jsstring list" where
  "flush segments buffer = (if buffer \<noteq> [] then (segments @ [buffer], []) else (segments, buffer))"

text \<open>The body of the \<^verbatim>\<open>for (const rawLine of lines)\<close> loop, on the pair (segments, buffer).\<close>

fun segment_loop ::
  "jsstring list \<Rightarrow> jsstring list list \<Rightarrow> jsstring list \<Rightarrow> jsstring list list \<times> jsstring list" where
  "segment_loop [] segments buffer = (segments, buffer)"
| "segment_loop (rawLine # lines) segments buffer =
     (let trimmed = trim rawLine in
      if trimmed = [] then
        (case flush segments buffer of (segments', buffer') \<Rightarrow>
           segment_loop lines segments' buffer')
      else if trimmed = interlude then
        (case flush segments buffer of (segments', buffer') \<Rightarrow>
           segment_loop lines (segments' @ [[trimmed]]) buffer')
      else
        (let buffer' = buffer @ [trimmed] in
         if length buffer' = 2 then segment_loop lines (segments @ [buffer']) []
         else segment_loop lines segments buffer'))"

definition segmentLyrics :: "jsstring list \<Rightarrow> jsstring list list" where
  "segmentLyrics lines =
     (case segment_loop lines [] [] of (segments, buffer) \<Rightarrow>
        if buffer \<noteq> [] then segments @ [buffer] else segments)"

text \<open>
  The absolute difference of the lengths of the two joined halves at split index \<open>i\<close>:
  \<^verbatim>\<open>Math.abs(words.slice(0, i).join(" ").length - words.slice(i).join(" ").length)\<close>.
\<close>

definition half_diff :: "jsstring list \<Rightarrow> nat \<Rightarrow> int" where
  "half_diff words i =
     \<bar>int (length (join (take i words))) - int (length (join (drop i words)))\<bar>"

text \<open>
  The search loop \<^verbatim>\<open>for (let i = 1; i < words.length; i++)\<close> on the pair (best, diff);
  \<open>None\<close> is the initial \<^verbatim>\<open>Infinity\<close>, which every difference is below.
\<close>

function balance_loop :: "jsstring list \<Rightarrow> nat \<Rightarrow> nat \<Rightarrow> int option \<Rightarrow> nat" where
  "balance_loop words i best diff =
     (if i < length words then
        (let d = half_diff words i in
         if (case diff of None \<Rightarrow> True | Some m \<Rightarrow> d < m)
         then balance_loop words (i + 1) i (Some d)
         else balance_loop words (i + 1) best diff)
      else best)"
  by pat_completeness auto
termination
  by (relation "measure (\<lambda>(words, i, best, diff). length words - i)") auto

declare balance_loop.simps [simp del]

text \<open>\<^verbatim>\<open>line.trim().split(/\s+/)\<close>\<close>

definition line_words :: "jsstring \<Rightarrow> jsstring list" where
  "line_words line = split_ws (trim line)"

text \<open>
  \<^verbatim>\<open>words.at(-1) === amen\<close>; \<^verbatim>\<open>at(-1)\<close> of an empty array is \<^verbatim>\<open>undefined\<close>, which is
  not the marker.
\<close>

definition hasAmen :: "jsstring list \<Rightarrow> bool" where
  "hasAmen words \<longleftrightarrow> words \<noteq> [] \<and> last words = amen"

text \<open>The words that remain after \<^verbatim>\<open>if (hasAmen) words.pop();\<close>\<close>

definition body_words :: "jsstring \<Rightarrow> jsstring list" where
  "body_words line =
     (let words = line_words line in if hasAmen words then butlast words else words)"

definition splitBalanced :: "jsstring \<Rightarrow> jsstring list" where
  "splitBalanced line =
     (let has = hasAmen (line_words line);
          words = body_words line
      in if length words < 2 then
           (if has then [join words, amen] else [join words])
         else
           (let best = balance_loop words 1 1 None;
                res = [join (take best words), join (drop best words)]
            in if has then res @ [amen] else res))"


section \<open>Specification-side notions for the lyrics segmenter\<close>

text \<open>
  A well-formed segment: the interlude marker alone, or one or two regular lines (non-empty
  and different from the marker).
\<close>

definition segment_ok :: "jsstring list \<Rightarrow> bool" where
  "segment_ok seg \<longleftrightarrow>
     seg = [interlude] \<or>
     ((length seg = 1 \<or> length seg = 2) \<and> (\<forall>l \<in> set seg. l \<noteq> [] \<and> l \<noteq> interlude))"

text \<open>
  \<open>b\<close> is the split index the specification asks for: between 1 and the token count
  minus one, of minimal half difference, and the leftmost such index.
\<close>

definition first_min_split :: "jsstring list \<Rightarrow> nat \<Rightarrow> bool" where
  "first_min_split words b \<longleftrightarrow>
     1 \<le> b \<and> b < length words
     \<and> (\<forall>j. 1 \<le> j \<and> j < length words \<longrightarrow> half_diff words b \<le> half_diff words j)
     \<and> (\<forall>j. 1 \<le> j \<and> j < b \<longrightarrow> half_diff words b < half_diff words j)"

text \<open>
  The state of the search loop before index \<open>i\<close> is examined: nothing seen yet, or
  \<open>best\<close> is the leftmost minimum among the indices below \<open>i\<close>.
\<close>

definition scan_inv :: "jsstring list \<Rightarrow> nat \<Rightarrow> nat \<Rightarrow> int option \<Rightarrow> bool" where
  "scan_inv words i best diff \<longleftrightarrow>
     (case diff of
        None \<Rightarrow> i = 1
      | Some m \<Rightarrow> 1 \<le> best \<and> best < i \<and> m = half_diff words best
          \<and> (\<forall>j. 1 \<le> j \<and> j < i \<longrightarrow> m \<le> half_diff words j)
          \<and> (\<forall>j. 1 \<le> j \<and> j < best \<longrightarrow> m < half_diff words j))"

text \<open>The detached marker, re-appended as the last entry when it was present.\<close>

definition amen_part :: "jsstring \<Rightarrow> jsstring list" where
  "amen_part line = (if hasAmen (line_words line) then [amen] else [])"

text \<open>
  The white-space-delimited tokens of a string: the non-empty pieces between runs of
  white space.
\<close>

definition tokens :: "jsstring \<Rightarrow> jsstring list" where
  "tokens s = filter (\<lambda>t. t \<noteq> []) (split_ws s)"

definition word_like :: "jsstring \<Rightarrow> bool" where
  "word_like w \<longleftrightarrow> w \<noteq> [] \<and> (\<forall>c \<in> set w. \<not> is_space c)"

text \<open>
  Two lines of the specification's examples: "gippeuda amen" (one word and the marker) and
  "han du se ne" (four words of one code unit each).
\<close>

definition line_gippeuda_amen :: jsstring where
  "line_gippeuda_amen = [0xAE30, 0xC058, 0xB2E4, 0x20, 0xC544, 0xBA58]"

definition line_han_du_se_ne :: jsstring where
  "line_han_du_se_ne = [0xD55C, 0x20, 0xB450, 0x20, 0xC138, 0x20, 0xB124]"

text \<open>A string literal of the source that is plain ASCII, as code units.\<close>

definition ascii :: "string \<Rightarrow> jsstring" where
  "ascii s = map (\<lambda>c. of_nat (of_char c)) s"

section \<open>Text-fit engine (js/autoshrink\_hall.js, js/autoshrink\_obs.js)\<close>

text \<open>
  Finite JavaScript numbers are reals here, and the rounding of the runtime's
  double-precision arithmetic is a parameter \<open>rnd\<close>: the sum or difference the source
  computes is \<open>rnd\<close> of the exact one. \<open>exact\<close> is the rounding for the examples, whose
  values (whole and half numbers of small size) are doubles that the runtime adds and
  subtracts without error.
\<close>

definition exact :: "real \<Rightarrow> real" where
  "exact x = x"

text \<open>
  The part of an element that \<^verbatim>\<open>autoShrinkFont\<close> writes: \<^verbatim>\<open>el.style.overflow\<close> and the
  pixel size in \<^verbatim>\<open>el.style.fontSize\<close>.
\<close>

record element =
  style_overflow :: jsstring
  style_fontSize :: real

text \<open>
  \<^verbatim>\<open>el.style.fontSize = font + "px"\<close>: a negative length is not a font size, the
  assignment is then ignored and the element keeps the size it had.
\<close>

definition set_fontSize :: "real \<Rightarrow> element \<Rightarrow> element" where
  "set_fontSize font el = (if 0 \<le> font then el\<lparr>style_fontSize := font\<rparr> else el)"

text \<open>What the loop reads back from the element after each write.\<close>

record box =
  scrollWidth :: int
  offsetWidth :: int
  scrollHeight :: int
  offsetHeight :: int

text \<open>
  The browser's layout is a parameter \<open>layout\<close>: the measures of the element in its
  current style.
  \<^verbatim>\<open>el.scrollWidth > el.offsetWidth || el.scrollHeight > el.offsetHeight\<close>
\<close>

definition overflows :: "(element \<Rightarrow> box) \<Rightarrow> element \<Rightarrow> bool" where
  "overflows layout el \<longleftrightarrow>
     scrollWidth (layout el) > offsetWidth (layout el)
     \<or> scrollHeight (layout el) > offsetHeight (layout el)"

text \<open>
  \<^verbatim>\<open>while (font > minFont && (overflow)) { font--; el.style.fontSize = font + "px"; }\<close>
  The loop need not end: a number so large that subtracting one rounds back to it is
  never left. \<open>None\<close> is the run that does not return.
\<close>

partial_function (option) shrink_loop ::
  "(real \<Rightarrow> real) \<Rightarrow> (element \<Rightarrow> box) \<Rightarrow> real \<Rightarrow> element \<Rightarrow> real \<Rightarrow> element option" where
  "shrink_loop rnd layout minFont el font =
     (if font > minFont \<and> overflows layout el
      then shrink_loop rnd layout minFont (set_fontSize (rnd (font - 1)) el) (rnd (font - 1))
      else Some el)"

text \<open>
  The two files have the same body; the OBS one also reads \<^verbatim>\<open>el.style.overflow\<close> into a
  variable it never uses. They differ in the default arguments.
\<close>

definition autoShrinkFont ::
  "(real \<Rightarrow> real) \<Rightarrow> (element \<Rightarrow> box) \<Rightarrow> element \<Rightarrow> real \<Rightarrow> real \<Rightarrow> element option" where
  "autoShrinkFont rnd layout el maxFont minFont =
     (let el1 = el\<lparr>style_overflow := ascii ''visible''\<rparr>;
          font = maxFont;
          el2 = set_fontSize font el1
      in shrink_loop rnd layout minFont el2 font)"

definition autoShrinkFont_hall ::
  "(real \<Rightarrow> real) \<Rightarrow> (element \<Rightarrow> box) \<Rightarrow> element \<Rightarrow> element option" where
  "autoShrinkFont_hall rnd layout el = autoShrinkFont rnd layout el 80 16"

definition autoShrinkFont_obs ::
  "(real \<Rightarrow> real) \<Rightarrow> (element \<Rightarrow> box) \<Rightarrow> element \<Rightarrow> element option" where
  "autoShrinkFont_obs rnd layout el = autoShrinkFont rnd layout el 48 16"

text \<open>
  The content fits at font size \<open>f\<close>: measured as the loop measures it, with overflow set to
  visible, neither extent exceeds the box.
\<close>

definition fits_at :: "(element \<Rightarrow> box) \<Rightarrow> element \<Rightarrow> real \<Rightarrow> bool" where
  "fits_at layout el f \<longleftrightarrow>
     \<not> overflows layout (el\<lparr>style_overflow := ascii ''visible'', style_fontSize := f\<rparr>)"

text \<open>
  Two layouts for examples: a line ten times as wide as its font size in a box 185 wide,
  and a text that is 1000 wide at every size.
\<close>

definition wide_text :: "element \<Rightarrow> box" where
  "wide_text el = \<lparr>scrollWidth = \<lceil>10 * style_fontSize el\<rceil>, offsetWidth = 185,
                    scrollHeight = \<lceil>style_fontSize el\<rceil>, offsetHeight = 100\<rparr>"

definition too_long_text :: "element \<Rightarrow> box" where
  "too_long_text el = \<lparr>scrollWidth = 1000, offsetWidth = 185,
                        scrollHeight = \<lceil>style_fontSize el\<rceil>, offsetHeight = 100\<rparr>"

definition plain_element :: element where
  "plain_element = \<lparr>style_overflow = ascii ''hidden'', style_fontSize = 12\<rparr>"

section \<open>Video controls (renderVideo in js/render\_hall.js and js/main\_obs.js)\<close>











section \<open>Live transport (js/ws\_hall.js, js/ws\_obs.js)\<close>

text \<open>\<^verbatim>\<open>ws.readyState\<close>\<close>

datatype readyState = CONNECTING | OPEN | CLOSING | CLOSED

text \<open>\<^verbatim>\<open>event.data\<close> of a message event: a text frame or a binary one.\<close>

datatype msg_data = Text jsstring | Binary "8 word list"

text \<open>
  What a pending timer does when it fires: the body of the \<^verbatim>\<open>setInterval\<close> callback, the
  body of the inner \<^verbatim>\<open>setTimeout\<close> callback, or \<^verbatim>\<open>() => connectWebSocket(onMessage)\<close>
  with the callback it has captured. \<open>'cb\<close> is the type of the callbacks passed to
  \<^verbatim>\<open>connectWebSocket\<close>.
\<close>

datatype 'cb task = PingTick | PongDeadline | Reconnect 'cb

text \<open>
  The module-level variables \<^verbatim>\<open>ws\<close>, \<^verbatim>\<open>connecting\<close>, \<^verbatim>\<open>pingTimer\<close>, \<^verbatim>\<open>pongTimeout\<close>
  (\<open>None\<close> is \<^verbatim>\<open>undefined\<close> or \<^verbatim>\<open>null\<close>), and the part of the browser they act on: every
  socket created so far with its ready state and the callback its handlers have captured
  (\<^verbatim>\<open>ws\<close> is an index into that list), the pending timers as (handle, task, delay in ms),
  the next timer handle, the frames sent as (socket, text), and the calls made to the
  callbacks, oldest first. Console output is left out.
\<close>

record 'cb conn =
  ws :: "nat option"
  connecting :: bool
  pingTimer :: "nat option"
  pongTimeout :: "nat option"
  sockets :: "(readyState \<times> 'cb) list"
  timers :: "(nat \<times> 'cb task \<times> nat) list"
  next_timer :: nat
  sent :: "(nat \<times> jsstring) list"
  delivered :: "('cb \<times> msg_data) list"

definition initial :: "'cb conn" where
  "initial = \<lparr>ws = None, connecting = False, pingTimer = None, pongTimeout = None,
              sockets = [], timers = [], next_timer = 1, sent = [], delivered = []\<rparr>"

text \<open>\<^verbatim>\<open>setTimeout\<close> and \<^verbatim>\<open>setInterval\<close>: a fresh handle is returned.\<close>

definition set_timer :: "'cb task \<Rightarrow> nat \<Rightarrow> 'cb conn \<Rightarrow> nat \<times> 'cb conn" where
  "set_timer task delay s =
     (next_timer s,
      s\<lparr>timers := timers s @ [(next_timer s, task, delay)], next_timer := Suc (next_timer s)\<rparr>)"

text \<open>
  \<^verbatim>\<open>clearTimeout\<close> and \<^verbatim>\<open>clearInterval\<close>: nothing happens for \<^verbatim>\<open>null\<close> or for a handle that
  is not pending.
\<close>

definition clear_timer :: "nat option \<Rightarrow> 'cb conn \<Rightarrow> 'cb conn" where
  "clear_timer h s =
     (case h of None \<Rightarrow> s
      | Some i \<Rightarrow> s\<lparr>timers := filter (\<lambda>t. fst t \<noteq> i) (timers s)\<rparr>)"

text \<open>\<^verbatim>\<open>ws.readyState\<close> of the socket the variable \<^verbatim>\<open>ws\<close> refers to.\<close>

definition readyState_of :: "'cb conn \<Rightarrow> readyState option" where
  "readyState_of s =
     (case ws s of None \<Rightarrow> None
      | Some k \<Rightarrow> if k < length (sockets s) then Some (fst (sockets s ! k)) else None)"

text \<open>\<^verbatim>\<open>ws = new WebSocket(...)\<close>, with the handlers that capture the callback.\<close>

definition new_WebSocket :: "'cb \<Rightarrow> 'cb conn \<Rightarrow> 'cb conn" where
  "new_WebSocket cb s =
     s\<lparr>ws := Some (length (sockets s)), sockets := sockets s @ [(CONNECTING, cb)]\<rparr>"

text \<open>js/ws\_hall.js: \<^verbatim>\<open>if (connecting) return;\<close>\<close>

definition connectWebSocket_hall :: "'cb \<Rightarrow> 'cb conn \<Rightarrow> 'cb conn" where
  "connectWebSocket_hall onMessage s =
     (if connecting s then s
      else new_WebSocket onMessage (s\<lparr>connecting := True\<rparr>))"

text \<open>
  js/ws\_obs.js: \<^verbatim>\<open>if (connecting || (ws && ws.readyState === WebSocket.OPEN)) return;\<close>
\<close>

definition connectWebSocket_obs :: "'cb \<Rightarrow> 'cb conn \<Rightarrow> 'cb conn" where
  "connectWebSocket_obs onSlideJsonString s =
     (if connecting s \<or> (ws s \<noteq> None \<and> readyState_of s = Some OPEN) then s
      else new_WebSocket onSlideJsonString (s\<lparr>connecting := True\<rparr>))"

text \<open>\<^verbatim>\<open>ws.onopen\<close>, the same in both files.\<close>

definition onopen :: "'cb conn \<Rightarrow> 'cb conn" where
  "onopen s =
     (case set_timer PingTick 30000 (s\<lparr>connecting := False\<rparr>) of
        (h, s') \<Rightarrow> s'\<lparr>pingTimer := Some h\<rparr>)"

text \<open>\<^verbatim>\<open>ws.send(text)\<close> and \<^verbatim>\<open>ws.close()\<close> on the socket the variable \<^verbatim>\<open>ws\<close> refers to.\<close>

definition ws_send :: "jsstring \<Rightarrow> 'cb conn \<Rightarrow> 'cb conn" where
  "ws_send text s = (case ws s of None \<Rightarrow> s | Some k \<Rightarrow> s\<lparr>sent := sent s @ [(k, text)]\<rparr>)"

definition ws_close :: "'cb conn \<Rightarrow> 'cb conn" where
  "ws_close s =
     (case ws s of None \<Rightarrow> s
      | Some k \<Rightarrow>
          if k < length (sockets s) \<and> fst (sockets s ! k) \<in> {CONNECTING, OPEN}
          then s\<lparr>sockets := (sockets s)[k := (CLOSING, snd (sockets s ! k))]\<rparr>
          else s)"

text \<open>The callback of \<^verbatim>\<open>setInterval\<close> and the callback of the inner \<^verbatim>\<open>setTimeout\<close>.\<close>

definition ping_tick :: "'cb conn \<Rightarrow> 'cb conn" where
  "ping_tick s =
     (if readyState_of s = Some OPEN then
        (case set_timer PongDeadline 5000 (ws_send (ascii ''ping'') s) of
           (h, s') \<Rightarrow> s'\<lparr>pongTimeout := Some h\<rparr>)
      else s)"

definition pong_deadline :: "'cb conn \<Rightarrow> 'cb conn" where
  "pong_deadline s = ws_close s"

text \<open>\<^verbatim>\<open>ws.onerror\<close>, the same in both files.\<close>

definition onerror :: "'cb conn \<Rightarrow> 'cb conn" where
  "onerror s = s\<lparr>connecting := False\<rparr>"

text \<open>
  \<^verbatim>\<open>ws.onclose\<close>. js/ws\_hall.js clears the two timers and then schedules the
  reconnection; js/ws\_obs.js schedules first and clears afterwards.
\<close>

definition onclose_hall :: "'cb \<Rightarrow> 'cb conn \<Rightarrow> 'cb conn" where
  "onclose_hall onMessage s =
     snd (set_timer (Reconnect onMessage) 3000
            (clear_timer (pongTimeout s) (clear_timer (pingTimer s) (s\<lparr>connecting := False\<rparr>))))"

definition onclose_obs :: "'cb \<Rightarrow> 'cb conn \<Rightarrow> 'cb conn" where
  "onclose_obs onSlideJsonString s =
     (let s1 = snd (set_timer (Reconnect onSlideJsonString) 3000 (s\<lparr>connecting := False\<rparr>))
      in clear_timer (pongTimeout s1) (clear_timer (pingTimer s1) s1))"

text \<open>\<^verbatim>\<open>ws.onmessage\<close>, the same in both files.\<close>

definition onmessage :: "'cb \<Rightarrow> msg_data \<Rightarrow> 'cb conn \<Rightarrow> 'cb conn" where
  "onmessage onMessage data s =
     (if data = Text (ascii ''pong'') then clear_timer (pongTimeout s) s
      else s\<lparr>delivered := delivered s @ [(onMessage, data)]\<rparr>)"

text \<open>
  The events of a socket, as the browser delivers them to the handlers of socket \<open>k\<close>: the
  ready state is set before the open and the close handler run, and each handler sees the
  callback that was passed when the socket was created.
\<close>

datatype socket_event = Open | Error | Close | Message msg_data

datatype variant = Hall | Obs

definition connectWebSocket :: "variant \<Rightarrow> 'cb \<Rightarrow> 'cb conn \<Rightarrow> 'cb conn" where
  "connectWebSocket v cb s =
     (case v of Hall \<Rightarrow> connectWebSocket_hall cb s | Obs \<Rightarrow> connectWebSocket_obs cb s)"

definition set_readyState :: "nat \<Rightarrow> readyState \<Rightarrow> 'cb conn \<Rightarrow> 'cb conn" where
  "set_readyState k r s = s\<lparr>sockets := (sockets s)[k := (r, snd (sockets s ! k))]\<rparr>"

definition socket_event :: "variant \<Rightarrow> nat \<Rightarrow> socket_event \<Rightarrow> 'cb conn \<Rightarrow> 'cb conn" where
  "socket_event v k ev s =
     (if k < length (sockets s) then
        (let cb = snd (sockets s ! k) in
         case ev of
           Open \<Rightarrow> onopen (set_readyState k OPEN s)
         | Error \<Rightarrow> onerror s
         | Close \<Rightarrow>
             (case v of Hall \<Rightarrow> onclose_hall cb (set_readyState k CLOSED s)
                      | Obs \<Rightarrow> onclose_obs cb (set_readyState k CLOSED s))
         | Message data \<Rightarrow> onmessage cb data s)
      else s)"

text \<open>The handles of the pending timers.\<close>

definition pending :: "'cb conn \<Rightarrow> nat set" where
  "pending s = fst ` set (timers s)"

text \<open>
  Every handle in a variable or in the list of pending timers was issued earlier, so the
  next handle is fresh. The initial state has this property and every handler keeps it.
\<close>

definition handles_issued :: "'cb conn \<Rightarrow> bool" where
  "handles_issued s \<longleftrightarrow>
     (\<forall>i. pingTimer s = Some i \<longrightarrow> i < next_timer s)
     \<and> (\<forall>i. pongTimeout s = Some i \<longrightarrow> i < next_timer s)
     \<and> (\<forall>t \<in> set (timers s). fst t < next_timer s)"

text \<open>The pending timers other than the two heartbeat timers held in the variables.\<close>

definition kept :: "'cb conn \<Rightarrow> (nat \<times> 'cb task \<times> nat) list" where
  "kept s = filter (\<lambda>t. Some (fst t) \<noteq> pingTimer s \<and> Some (fst t) \<noteq> pongTimeout s) (timers s)"

text \<open>
  Two states for examples, with callback number 7: after the page has connected and the
  socket has opened, and after the first heartbeat probe has then been sent.
\<close>

definition open_state :: "variant \<Rightarrow> nat conn" where
  "open_state v = socket_event v 0 Open (connectWebSocket v 7 initial)"

definition awaiting_pong :: "variant \<Rightarrow> nat conn" where
  "awaiting_pong v = ping_tick (open_state v)"

section \<open>Render dispatcher (js/main\_hall.js, js/main\_obs.js)\<close>

text \<open>
  The values \<^verbatim>\<open>JSON.parse\<close> returns. A number is kept as the string that conversion to
  a property key gives for it. The members of an object are in the order of the text.
\<close>

datatype json =
  JNull | JBool bool | JNum jsstring | JStr jsstring | JArr "json list"
  | JObj "(jsstring \<times> json) list"

datatype js_error = TypeError

text \<open>An own property of a parsed object: of two members with one name the later wins.\<close>

definition own_property :: "(jsstring \<times> json) list \<Rightarrow> jsstring \<Rightarrow> json option" where
  "own_property members key = map_of (rev members) key"

text \<open>
  \<^verbatim>\<open>data.style\<close>: reading a property of \<^verbatim>\<open>null\<close> throws; a parsed object gives its own
  member or \<^verbatim>\<open>undefined\<close> (\<open>None\<close>); any other value has no such property.
\<close>

definition get_style :: "json \<Rightarrow> js_error + json option" where
  "get_style data =
     (case data of
        JNull \<Rightarrow> Inl TypeError
      | JObj members \<Rightarrow> Inr (own_property members (ascii ''style''))
      | _ \<Rightarrow> Inr None)"

text \<open>
  Conversion of a parsed value to a string, as the lookup \<^verbatim>\<open>renderMap[data.style]\<close> does
  with its key. An array joins its elements with commas, \<^verbatim>\<open>null\<close> elements as empty
  strings. An object gives \<^verbatim>\<open>"[object Object]"\<close>, unless it has a member named
  \<^verbatim>\<open>toString\<close>: that member is not a function, and the conversion throws.
\<close>

fun to_string :: "json \<Rightarrow> js_error + jsstring"
  and join_elements :: "json list \<Rightarrow> js_error + jsstring" where
  "to_string JNull = Inr (ascii ''null'')"
| "to_string (JBool b) = Inr (if b then ascii ''true'' else ascii ''false'')"
| "to_string (JNum repr) = Inr repr"
| "to_string (JStr s) = Inr s"
| "to_string (JArr xs) = join_elements xs"
| "to_string (JObj members) =
     (if map_of members (ascii ''toString'') \<noteq> None then Inl TypeError
      else Inr (ascii ''[object Object]''))"
| "join_elements [] = Inr []"
| "join_elements (x # xs) =
     (case (if x = JNull then Inr [] else to_string x) of
        Inl e \<Rightarrow> Inl e
      | Inr a \<Rightarrow>
          if xs = [] then Inr a
          else (case join_elements xs of
                  Inl e \<Rightarrow> Inl e
                | Inr b \<Rightarrow> Inr (a @ ascii '','' @ b)))"

definition to_property_key :: "json option \<Rightarrow> js_error + jsstring" where
  "to_property_key v = (case v of None \<Rightarrow> Inr (ascii ''undefined'') | Some x \<Rightarrow> to_string x)"

text \<open>The renderer functions, and the two \<^verbatim>\<open>renderMap\<close> literals.\<close>

datatype renderer =
  RenderLyrics | RenderVerse | RenderCorner | RenderAnthem | RenderPrayer | RenderGreet
  | RenderImage | RenderIntro | RenderVideo | RenderBlank

definition renderMap_obs :: "(jsstring \<times> renderer) list" where
  "renderMap_obs =
     [(ascii ''lyrics'', RenderLyrics), (ascii ''verse'', RenderVerse),
      (ascii ''corner'', RenderCorner), (ascii ''anthem'', RenderAnthem),
      (ascii ''prayer'', RenderPrayer), (ascii ''greet'', RenderGreet),
      (ascii ''image'', RenderImage), (ascii ''blank'', RenderBlank)]"

definition renderMap_hall :: "(jsstring \<times> renderer) list" where
  "renderMap_hall =
     [(ascii ''lyrics'', RenderLyrics), (ascii ''verse'', RenderVerse),
      (ascii ''corner'', RenderCorner), (ascii ''anthem'', RenderAnthem),
      (ascii ''prayer'', RenderPrayer), (ascii ''greet'', RenderGreet),
      (ascii ''image'', RenderImage), (ascii ''intro'', RenderIntro),
      (ascii ''video'', RenderVideo), (ascii ''blank'', RenderBlank)]"

text \<open>
  \<^verbatim>\<open>renderMap\<close> is an object literal, so a lookup that finds no own property goes on to
  \<^verbatim>\<open>Object.prototype\<close>, which has these properties.
\<close>

definition object_prototype_members :: "jsstring list" where
  "object_prototype_members =
     [ascii ''constructor'', ascii ''hasOwnProperty'', ascii ''isPrototypeOf'',
      ascii ''propertyIsEnumerable'', ascii ''toLocaleString'', ascii ''toString'',
      ascii ''valueOf'', ascii ''__defineGetter__'', ascii ''__defineSetter__'',
      ascii ''__lookupGetter__'', ascii ''__lookupSetter__'', ascii ''__proto__'']"

text \<open>The value of \<^verbatim>\<open>renderMap[key]\<close>.\<close>

datatype fn_value = Renderer renderer | ObjectMember jsstring | Undefined

definition get_property :: "(jsstring \<times> renderer) list \<Rightarrow> jsstring \<Rightarrow> fn_value" where
  "get_property table key =
     (case map_of table key of
        Some r \<Rightarrow> Renderer r
      | None \<Rightarrow> if key \<in> set object_prototype_members then ObjectMember key else Undefined)"

text \<open>
  The render surface: the style, class and content of the container element, the display
  style of the cover background of the hall page when that element exists, and the lines
  written by \<^verbatim>\<open>console.error\<close>.
\<close>

datatype log_line = JSON_parse_failed

record page =
  display :: jsstring
  className :: jsstring
  innerHTML :: jsstring
  cover_display :: "jsstring option"
  console :: "log_line list"

text \<open>\<^verbatim>\<open>clearScreen\<close> and \<^verbatim>\<open>renderBlank\<close> of js/render\_obs.js and of js/render\_hall.js.\<close>

definition clearScreen_obs :: "page \<Rightarrow> page" where
  "clearScreen_obs p = p\<lparr>display := ascii ''none'', className := [], innerHTML := []\<rparr>"

definition clearScreen_hall :: "page \<Rightarrow> page" where
  "clearScreen_hall p =
     p\<lparr>display := ascii ''none'', className := [], innerHTML := [],
       cover_display := map_option (\<lambda>_. ascii ''none'') (cover_display p)\<rparr>"

definition renderBlank_obs :: "json \<Rightarrow> page \<Rightarrow> page" where
  "renderBlank_obs data p = clearScreen_obs p"

definition renderBlank_hall :: "page \<Rightarrow> page" where
  "renderBlank_hall p = clearScreen_hall p"

text \<open>
  The renderers other than the blank one are a parameter: what each does to the page for a
  payload, or the exception it throws.
\<close>

type_synonym renderers = "renderer \<Rightarrow> json \<Rightarrow> page \<Rightarrow> js_error + page"

text \<open>
  \<^verbatim>\<open>fn(data)\<close> when \<^verbatim>\<open>fn\<close> is a property of \<^verbatim>\<open>Object.prototype\<close>, called with no receiver:
  \<^verbatim>\<open>Object(data)\<close> and \<^verbatim>\<open>toString\<close> return and leave the page alone; the other methods
  throw on the missing receiver (\<^verbatim>\<open>isPrototypeOf\<close> does so for an object argument, and
  only an object payload reaches it), and \<^verbatim>\<open>__proto__\<close> is not a function.
\<close>

definition call_object_member :: "jsstring \<Rightarrow> page \<Rightarrow> js_error + page" where
  "call_object_member name p =
     (if name = ascii ''constructor'' \<or> name = ascii ''toString'' then Inr p
      else Inl TypeError)"

text \<open>\<^verbatim>\<open>fn(data)\<close> in each file.\<close>

definition call_obs :: "renderers \<Rightarrow> fn_value \<Rightarrow> json \<Rightarrow> page \<Rightarrow> js_error + page" where
  "call_obs rs fn data p =
     (case fn of
        Renderer r \<Rightarrow> if r = RenderBlank then Inr (renderBlank_obs data p) else rs r data p
      | ObjectMember name \<Rightarrow> call_object_member name p
      | Undefined \<Rightarrow> Inl TypeError)"

definition call_hall :: "renderers \<Rightarrow> fn_value \<Rightarrow> json \<Rightarrow> page \<Rightarrow> js_error + page" where
  "call_hall rs fn data p =
     (case fn of
        Renderer r \<Rightarrow> if r = RenderBlank then Inr (renderBlank_hall p) else rs r data p
      | ObjectMember name \<Rightarrow> call_object_member name p
      | Undefined \<Rightarrow> Inl TypeError)"

text \<open>
  js/main\_obs.js, after the parse:
  \<^verbatim>\<open>const fn = renderMap[data.style]; if (!fn) { renderBlank(data); return; } fn(data);\<close>
\<close>

definition dispatch_obs :: "renderers \<Rightarrow> json \<Rightarrow> page \<Rightarrow> js_error + page" where
  "dispatch_obs rs data p =
     (case get_style data of
        Inl e \<Rightarrow> Inl e
      | Inr style \<Rightarrow>
          (case to_property_key style of
             Inl e \<Rightarrow> Inl e
           | Inr key \<Rightarrow>
               (let fn = get_property renderMap_obs key in
                if fn = Undefined then Inr (renderBlank_obs data p)
                else call_obs rs fn data p)))"

text \<open>
  js/main\_hall.js, after the parse:
  \<^verbatim>\<open>const fn = renderMap[data.style] || renderBlank; if (fn) fn(data);\<close>
\<close>

definition dispatch_hall :: "renderers \<Rightarrow> json \<Rightarrow> page \<Rightarrow> js_error + page" where
  "dispatch_hall rs data p =
     (case get_style data of
        Inl e \<Rightarrow> Inl e
      | Inr style \<Rightarrow>
          (case to_property_key style of
             Inl e \<Rightarrow> Inl e
           | Inr key \<Rightarrow>
               (let looked = get_property renderMap_hall key;
                    fn = (if looked = Undefined then Renderer RenderBlank else looked)
                in if fn \<noteq> Undefined then call_hall rs fn data p else Inr p)))"

text \<open>
  The callbacks passed to \<^verbatim>\<open>connectWebSocket\<close>. \<^verbatim>\<open>JSON.parse\<close> belongs to the runtime and
  is a parameter: \<open>None\<close> where it throws. The \<^verbatim>\<open>catch\<close> logs and returns; an exception
  thrown after the \<^verbatim>\<open>try\<close> block leaves the callback.
\<close>

definition main_obs ::
  "(jsstring \<Rightarrow> json option) \<Rightarrow> renderers \<Rightarrow> jsstring \<Rightarrow> page \<Rightarrow> js_error + page" where
  "main_obs JSON_parse rs raw p =
     (case JSON_parse raw of
        None \<Rightarrow> Inr (p\<lparr>console := console p @ [JSON_parse_failed]\<rparr>)
      | Some data \<Rightarrow> dispatch_obs rs data p)"

definition main_hall ::
  "(jsstring \<Rightarrow> json option) \<Rightarrow> renderers \<Rightarrow> jsstring \<Rightarrow> page \<Rightarrow> js_error + page" where
  "main_hall JSON_parse rs raw p =
     (case JSON_parse raw of
        None \<Rightarrow> Inr (p\<lparr>console := console p @ [JSON_parse_failed]\<rparr>)
      | Some data \<Rightarrow> dispatch_hall rs data p)"

text \<open>
  For examples: what \<^verbatim>\<open>JSON.parse\<close> does on the text \<^verbatim>\<open>null\<close> and on texts that are not
  JSON (nothing else is asked of it), renderers that leave the page alone, a page that
  shows a verse, and the payload with a given style and nothing else.
\<close>

definition parse_null_only :: "jsstring \<Rightarrow> json option" where
  "parse_null_only raw = (if raw = ascii ''null'' then Some JNull else None)"

definition idle_renderers :: renderers where
  "idle_renderers r data p = Inr p"

definition verse_page :: page where
  "verse_page = \<lparr>display = ascii ''flex'', className = ascii ''verse'',
                  innerHTML = ascii ''<div>text</div>'', cover_display = Some (ascii ''none''),
                  console = []\<rparr>"

definition styled :: "jsstring \<Rightarrow> json" where
  "styled s = JObj [(ascii ''style'', JStr s)]"


section \<open>Facts about lists and white space\<close>

lemma while_all:
  "\<forall>c \<in> set w. Q c \<Longrightarrow> dropWhile Q w = [] \<and> takeWhile Q w = w"
  by (induction w) auto

lemma while_stop:
  "\<forall>c \<in> set w. Q c \<Longrightarrow> \<not> Q x \<Longrightarrow>
   takeWhile Q (w @ x # ys) = w \<and> dropWhile Q (w @ x # ys) = x # ys"
  by (induction w) auto

lemma while_snoc_done:
  "dropWhile Q s = [] \<Longrightarrow> \<not> Q c \<Longrightarrow>
   takeWhile Q (s @ [c]) = s \<and> dropWhile Q (s @ [c]) = [c] \<and> takeWhile Q s = s"
  by (induction s) (auto split: if_splits)

lemma while_append_more:
  "dropWhile Q s \<noteq> [] \<Longrightarrow>
   takeWhile Q (s @ ys) = takeWhile Q s \<and> dropWhile Q (s @ ys) = dropWhile Q s @ ys"
  by (induction s) auto

lemma dropWhile_snoc_all:
  "dropWhile Q s = [] \<Longrightarrow> Q c \<Longrightarrow> dropWhile Q (s @ [c]) = []"
  by (induction s) (auto split: if_splits)

lemma last_dropWhile: "dropWhile Q xs \<noteq> [] \<Longrightarrow> last (dropWhile Q xs) = last xs"
  by (induction xs) (auto split: if_splits)

lemma hd_dropWhile_not: "dropWhile Q xs \<noteq> [] \<Longrightarrow> \<not> Q (hd (dropWhile Q xs))"
  by (induction xs) (auto split: if_splits)

lemma dropWhile_last_not: "xs \<noteq> [] \<Longrightarrow> \<not> Q (last xs) \<Longrightarrow> dropWhile Q xs \<noteq> []"
  by (induction xs) (auto split: if_splits)

lemma takeWhile_hd: "xs \<noteq> [] \<Longrightarrow> Q (hd xs) \<Longrightarrow> takeWhile Q xs \<noteq> []"
  by (cases xs) auto

lemma dropWhile_hd_id: "xs \<noteq> [] \<Longrightarrow> \<not> Q (hd xs) \<Longrightarrow> dropWhile Q xs = xs"
  by (cases xs) auto

lemma space_0x20: "is_space 0x20"
  by (simp add: is_space_def)

lemma interlude_trimmed: "trim interlude = interlude"
  by (simp add: trim_def interlude_def is_space_def)

lemma split_ws_Nil: "split_ws [] = [[]]"
  by (simp add: split_ws.simps)

lemma split_ws_space: "is_space c \<Longrightarrow> split_ws (c # s) = [] # split_ws (dropWhile is_space s)"
  by (subst split_ws.simps) simp

lemma split_ws_not_Nil: "split_ws s \<noteq> []"
  by (subst split_ws.simps) (simp add: Let_def)

lemma split_ws_last:
  "dropWhile (\<lambda>c. \<not> is_space c) s = [] \<Longrightarrow> split_ws s = [takeWhile (\<lambda>c. \<not> is_space c) s]"
  by (subst split_ws.simps) (simp only: Let_def refl if_True)

lemma split_ws_more:
  "dropWhile (\<lambda>c. \<not> is_space c) s \<noteq> [] \<Longrightarrow>
   split_ws s = takeWhile (\<lambda>c. \<not> is_space c) s
                # split_ws (dropWhile is_space (dropWhile (\<lambda>c. \<not> is_space c) s))"
  by (subst split_ws.simps) (simp only: Let_def if_False)

lemma split_ws_word: "\<forall>c \<in> set w. \<not> is_space c \<Longrightarrow> split_ws w = [w]"
proof -
  assume a: "\<forall>c \<in> set w. \<not> is_space c"
  note t = while_all [of w "\<lambda>c. \<not> is_space c", OF a]
  from split_ws_last [of w] t show ?thesis by simp
qed

lemma no_space_in_split: "w \<in> set (split_ws s) \<Longrightarrow> c \<in> set w \<Longrightarrow> \<not> is_space c"
proof (induction s arbitrary: w rule: split_ws.induct)
  case (1 s)
  let ?tok = "takeWhile (\<lambda>c. \<not> is_space c) s"
  let ?rest = "dropWhile (\<lambda>c. \<not> is_space c) s"
  have tok: "c \<in> set ?tok \<Longrightarrow> \<not> is_space c"
    by (auto dest: set_takeWhileD)
  show ?case
  proof (cases "?rest = []")
    case True
    from "1.prems"(1) have "w = ?tok" unfolding split_ws_last [OF True] by simp
    with tok "1.prems" show ?thesis by simp
  next
    case False
    from "1.prems"(1) have "w = ?tok \<or> w \<in> set (split_ws (dropWhile is_space ?rest))"
      unfolding split_ws_more [OF False] by simp
    with tok "1.prems" "1.IH" [OF refl refl False] show ?thesis by blast
  qed
qed

lemma join_Cons: "join (v # wds) = v @ (if wds = [] then [] else 0x20 # join wds)"
  by (cases wds) simp_all

lemma split_ws_join:
  "wds \<noteq> [] \<Longrightarrow> \<forall>w \<in> set wds. word_like w \<Longrightarrow> split_ws (join wds) = wds"
proof (induction wds rule: join.induct)
  case 1
  then show ?case by simp
next
  case (2 w)
  then show ?case by (simp add: split_ws_word word_like_def)
next
  case (3 w v wds)
  have w: "\<forall>c \<in> set w. \<not> is_space c" using "3.prems" by (simp add: word_like_def)
  have sp: "\<not> \<not> is_space 0x20" by (simp add: space_0x20)
  note t = while_stop [of w "\<lambda>c. \<not> is_space c" "0x20" "join (v # wds)", OF w sp]
  have v: "v \<noteq> []" "\<not> is_space (hd v)" using "3.prems" by (auto simp: word_like_def)
  have j: "join (v # wds) \<noteq> []" "hd (join (v # wds)) = hd v"
    using v(1) by (simp_all add: join_Cons)
  have d: "dropWhile is_space (0x20 # join (v # wds)) = join (v # wds)"
    using dropWhile_hd_id [of "join (v # wds)" is_space] j v(2) by (simp add: space_0x20)
  have ne: "dropWhile (\<lambda>c. \<not> is_space c) (join (w # v # wds)) \<noteq> []"
    using t by simp
  have "split_ws (join (w # v # wds)) = w # split_ws (join (v # wds))"
    using split_ws_more [OF ne] t d by simp
  moreover have "split_ws (join (v # wds)) = v # wds"
    using "3.IH" "3.prems" by simp
  ultimately show ?case by simp
qed

lemma split_ws_trimmed:
  "t \<noteq> [] \<Longrightarrow> \<not> is_space (hd t) \<Longrightarrow> \<not> is_space (last t) \<Longrightarrow> [] \<notin> set (split_ws t)"
proof (induction t rule: split_ws.induct)
  case (1 s)
  let ?tok = "takeWhile (\<lambda>c. \<not> is_space c) s"
  let ?rest = "dropWhile (\<lambda>c. \<not> is_space c) s"
  have tok: "?tok \<noteq> []"
    using takeWhile_hd [of s "\<lambda>c. \<not> is_space c"] "1.prems"(1,2) by simp
  show ?case
  proof (cases "?rest = []")
    case True
    show ?thesis unfolding split_ws_last [OF True] using tok by simp
  next
    case False
    have lr: "last ?rest = last s" by (rule last_dropWhile [OF False])
    have nl: "\<not> is_space (last ?rest)" unfolding lr by (rule "1.prems"(3))
    have r': "dropWhile is_space ?rest \<noteq> []"
      by (rule dropWhile_last_not [of ?rest is_space, OF False nl])
    have h: "\<not> is_space (hd (dropWhile is_space ?rest))"
      by (rule hd_dropWhile_not [of is_space ?rest, OF r'])
    have l: "\<not> is_space (last (dropWhile is_space ?rest))"
      unfolding last_dropWhile [OF r'] by (rule nl)
    have "[] \<notin> set (split_ws (dropWhile is_space ?rest))"
      by (rule "1.IH" [OF refl refl False r' h l])
    then show ?thesis unfolding split_ws_more [OF False] using tok by simp
  qed
qed

lemma trim_ends:
  assumes "trim s \<noteq> []"
  shows "\<not> is_space (hd (trim s))" "\<not> is_space (last (trim s))"
proof -
  let ?u = "dropWhile is_space s"
  let ?v = "dropWhile is_space (rev ?u)"
  have v: "?v \<noteq> []" using assms unfolding trim_def by simp
  have u: "?u \<noteq> []"
  proof
    assume e: "?u = []"
    have "?v = []" unfolding e by simp
    with v show False by contradiction
  qed
  have "last (trim s) = hd ?v" unfolding trim_def using v by (simp add: last_rev)
  then show "\<not> is_space (last (trim s))" using hd_dropWhile_not [OF v] by simp
  have "hd (trim s) = last ?v" unfolding trim_def using v by (simp add: hd_rev)
  also have "\<dots> = last (rev ?u)" by (rule last_dropWhile [OF v])
  also have "\<dots> = hd ?u" using u by (simp add: last_rev)
  finally show "\<not> is_space (hd (trim s))" using hd_dropWhile_not [OF u] by simp
qed

section \<open>The segmenter keeps every line and forms well-shaped segments\<close>

lemma segment_loop_concat:
  "segment_loop lines segments buffer = (segments', buffer') \<Longrightarrow>
   concat segments' @ buffer' =
     concat segments @ buffer @ filter (\<lambda>t. t \<noteq> []) (map trim lines)"
proof (induction lines arbitrary: segments buffer)
  case Nil
  then show ?case by simp
next
  case (Cons rawLine lines)
  show ?case
  proof (cases "trim rawLine = []")
    case True
    with Cons.prems Cons.IH show ?thesis
      by (auto simp: flush_def split: if_splits)
  next
    case False
    show ?thesis
    proof (cases "trim rawLine = interlude")
      case True
      with False Cons.prems Cons.IH show ?thesis
        by (auto simp: flush_def split: if_splits)
    next
      case notint: False
      with False Cons.prems Cons.IH show ?thesis
        by (auto simp: Let_def split: if_splits)
    qed
  qed
qed

lemma segment_loop_ok:
  "segment_loop lines segments buffer = (segments', buffer') \<Longrightarrow>
   \<forall>seg \<in> set segments. segment_ok seg \<Longrightarrow>
   length buffer < 2 \<Longrightarrow> \<forall>l \<in> set buffer. l \<noteq> [] \<and> l \<noteq> interlude \<Longrightarrow>
   (\<forall>seg \<in> set segments'. segment_ok seg) \<and> length buffer' < 2 \<and>
   (\<forall>l \<in> set buffer'. l \<noteq> [] \<and> l \<noteq> interlude)"
proof (induction lines arbitrary: segments buffer)
  case Nil
  then show ?case by simp
next
  case (Cons rawLine lines)
  have buf_ok: "buffer \<noteq> [] \<Longrightarrow> segment_ok buffer"
    using Cons.prems(3,4) by (cases buffer) (auto simp: segment_ok_def)
  show ?case
  proof (cases "trim rawLine = []")
    case True
    show ?thesis
    proof (cases "buffer = []")
      case e: True
      with True Cons.prems have "segment_loop lines segments [] = (segments', buffer')"
        by (simp add: flush_def)
      from Cons.IH [OF this] Cons.prems(2) show ?thesis by simp
    next
      case ne: False
      with True Cons.prems have "segment_loop lines (segments @ [buffer]) [] = (segments', buffer')"
        by (simp add: flush_def)
      from Cons.IH [OF this] Cons.prems(2) buf_ok [OF ne] show ?thesis by simp
    qed
  next
    case False
    show ?thesis
    proof (cases "trim rawLine = interlude")
      case True
      have io: "segment_ok [interlude]" by (simp add: segment_ok_def)
      show ?thesis
      proof (cases "buffer = []")
        case e: True
        with True False Cons.prems
        have "segment_loop lines (segments @ [[interlude]]) [] = (segments', buffer')"
          by (simp add: flush_def)
        from Cons.IH [OF this] Cons.prems(2) io show ?thesis by simp
      next
        case ne: False
        with True False Cons.prems
        have "segment_loop lines ((segments @ [buffer]) @ [[interlude]]) [] = (segments', buffer')"
          by (simp add: flush_def)
        from Cons.IH [OF this] Cons.prems(2) buf_ok [OF ne] io show ?thesis by simp
      qed
    next
      case notint: False
      show ?thesis
      proof (cases "length (buffer @ [trim rawLine]) = 2")
        case True
        with False notint Cons.prems
        have run: "segment_loop lines (segments @ [buffer @ [trim rawLine]]) [] = (segments', buffer')"
          by (simp add: Let_def)
        have "segment_ok (buffer @ [trim rawLine])"
          using True False notint Cons.prems(4) by (auto simp: segment_ok_def)
        with Cons.IH [OF run] Cons.prems(2) show ?thesis by simp
      next
        case n2: False
        with False notint Cons.prems
        have run: "segment_loop lines segments (buffer @ [trim rawLine]) = (segments', buffer')"
          by (simp add: Let_def)
        have "length (buffer @ [trim rawLine]) < 2"
          using n2 Cons.prems(3) by (cases buffer) auto
        moreover have "\<forall>l \<in> set (buffer @ [trim rawLine]). l \<noteq> [] \<and> l \<noteq> interlude"
          using False notint Cons.prems(4) by simp
        ultimately show ?thesis using Cons.IH [OF run] Cons.prems(2) by blast
      qed
    qed
  qed
qed

lemma segmentLyrics_concat:
  "concat (segmentLyrics lines) = filter (\<lambda>t. t \<noteq> []) (map trim lines)"
proof -
  obtain sg bf where r: "segment_loop lines [] [] = (sg, bf)"
    by (cases "segment_loop lines [] []")
  from segment_loop_concat [OF r] show ?thesis
    by (cases "bf = []") (simp_all add: segmentLyrics_def r)
qed

lemma segmentLyrics_ok:
  "seg \<in> set (segmentLyrics lines) \<Longrightarrow> segment_ok seg"
proof -
  assume a: "seg \<in> set (segmentLyrics lines)"
  obtain sg bf where r: "segment_loop lines [] [] = (sg, bf)"
    by (cases "segment_loop lines [] []")
  from segment_loop_ok [OF r] have inv: "(\<forall>seg \<in> set sg. segment_ok seg)" "length bf < 2"
     "(\<forall>l \<in> set bf. l \<noteq> [] \<and> l \<noteq> interlude)" by simp_all
  have "bf \<noteq> [] \<Longrightarrow> segment_ok bf"
    using inv(2,3) by (cases bf) (auto simp: segment_ok_def)
  with a inv(1) show ?thesis
    by (auto simp: segmentLyrics_def r split: if_splits)
qed

lemma segmentLyrics_example:
  "segmentLyrics [[0x41], [0x42], [], interlude, [0x43]] = [[[0x41], [0x42]], [interlude], [[0x43]]]"
  by (simp add: segmentLyrics_def flush_def interlude_trimmed Let_def)
     (simp add: trim_def is_space_def interlude_def)

text \<open>
  Claim C6. For every sequence of lines, the segments of \<open>segmentLyrics\<close>, read in
  order, are exactly the trimmed input lines that are non-empty, in input order: no such
  line is dropped or moved. A segment that contains the interlude marker is the singleton
  of the marker, and every other segment has one or two lines, each non-empty and not the
  marker. The input \<^verbatim>\<open>["A", "B", "", marker, "C"]\<close> gives
  \<^verbatim>\<open>[["A", "B"], [marker], ["C"]]\<close>.
\<close>

theorem segmentLyrics_segments:
  "concat (segmentLyrics lines) = filter (\<lambda>t. t \<noteq> []) (map trim lines)
   \<and> (\<forall>seg \<in> set (segmentLyrics lines). interlude \<in> set seg \<longrightarrow> seg = [interlude])
   \<and> (\<forall>seg \<in> set (segmentLyrics lines). seg \<noteq> [interlude] \<longrightarrow>
         (length seg = 1 \<or> length seg = 2) \<and> (\<forall>l \<in> set seg. l \<noteq> [] \<and> l \<noteq> interlude))
   \<and> segmentLyrics [[0x41], [0x42], [], interlude, [0x43]]
       = [[[0x41], [0x42]], [interlude], [[0x43]]]"
  using segmentLyrics_concat [of lines] segmentLyrics_ok [of _ lines] segmentLyrics_example
  by (auto simp: segment_ok_def)

theorem segmentLyrics_segments_witness:
  "[interlude] \<in> set (segmentLyrics [[0x41], [0x42], [], interlude, [0x43]])
   \<and> interlude \<in> set [interlude]
   \<and> [[0x41], [0x42]] \<in> set (segmentLyrics [[0x41], [0x42], [], interlude, [0x43]])
   \<and> [[0x41], [0x42]] \<noteq> [interlude]
   \<and> length [[0x41], [0x42 :: code_unit]] = 2
   \<and> concat (segmentLyrics [[0x41], [0x42], [], interlude, [0x43]])
       = filter (\<lambda>t. t \<noteq> []) (map trim [[0x41], [0x42], [], interlude, [0x43]])"
proof -
  note t = segmentLyrics_segments [of "[[0x41], [0x42], [], interlude, [0x43]]"]
  have c: "concat (segmentLyrics [[0x41], [0x42], [], interlude, [0x43]])
       = filter (\<lambda>t. t \<noteq> []) (map trim [[0x41], [0x42], [], interlude, [0x43]])"
    by (rule t [THEN conjunct1])
  have e: "segmentLyrics [[0x41], [0x42], [], interlude, [0x43]]
       = [[[0x41], [0x42]], [interlude], [[0x43]]]"
    by (rule t [THEN conjunct2, THEN conjunct2, THEN conjunct2])
  have m: "[interlude] \<in> set (segmentLyrics [[0x41], [0x42], [], interlude, [0x43]])"
    "[[0x41], [0x42]] \<in> set (segmentLyrics [[0x41], [0x42], [], interlude, [0x43]])"
    unfolding e by simp_all
  have n: "[[0x41], [0x42]] \<noteq> [interlude]" by simp
  from c m n show ?thesis by simp
qed

section \<open>The balanced split is the leftmost minimum\<close>

lemma scan_inv_take:
  assumes "scan_inv words i best diff" "1 \<le> i"
    and "case diff of None \<Rightarrow> True | Some m \<Rightarrow> half_diff words i < m"
  shows "scan_inv words (i + 1) i (Some (half_diff words i))"
proof -
  have lt: "half_diff words i < half_diff words j" if "1 \<le> j" "j < i" for j
  proof (cases diff)
    case None
    with assms(1) that show ?thesis by (simp add: scan_inv_def)
  next
    case (Some m)
    with assms that have "half_diff words i < m" "m \<le> half_diff words j"
      by (auto simp: scan_inv_def)
    then show ?thesis by simp
  qed
  have le: "half_diff words i \<le> half_diff words j" if "1 \<le> j" "j < i + 1" for j
  proof (cases "j = i")
    case True then show ?thesis by simp
  next
    case False
    with that have "j < i" by simp
    with that lt [of j] show ?thesis by simp
  qed
  from lt le assms(2) show ?thesis by (simp add: scan_inv_def)
qed

lemma scan_inv_keep:
  assumes "scan_inv words i best (Some m)" "\<not> half_diff words i < m"
  shows "scan_inv words (i + 1) best (Some m)"
proof -
  from assms have all: "\<forall>j. 1 \<le> j \<and> j < i \<longrightarrow> m \<le> half_diff words j"
    by (auto simp: scan_inv_def)
  have "\<forall>j. 1 \<le> j \<and> j < i + 1 \<longrightarrow> m \<le> half_diff words j"
  proof (intro allI impI)
    fix j assume j: "1 \<le> j \<and> j < i + 1"
    show "m \<le> half_diff words j"
    proof (cases "j = i")
      case True with assms(2) show ?thesis by simp
    next
      case False
      with j have "j < i" by simp
      with j all show ?thesis by simp
    qed
  qed
  with assms(1) show ?thesis by (auto simp: scan_inv_def)
qed

lemma balance_loop_first_min:
  "2 \<le> length words \<Longrightarrow> 1 \<le> i \<Longrightarrow> i \<le> length words \<Longrightarrow> scan_inv words i best diff \<Longrightarrow>
   first_min_split words (balance_loop words i best diff)"
proof (induction words i best diff rule: balance_loop.induct)
  case (1 words i best diff)
  show ?case
  proof (cases "i < length words")
    case True
    show ?thesis
    proof (cases "case diff of None \<Rightarrow> True | Some m \<Rightarrow> half_diff words i < m")
      case take: True
      have "first_min_split words (balance_loop words (i + 1) i (Some (half_diff words i)))"
        using "1.IH"(1) [OF True refl take] "1.prems" True scan_inv_take [OF "1.prems"(4) "1.prems"(2) take]
        by simp
      with True take show ?thesis
        by (subst balance_loop.simps) (simp add: Let_def)
    next
      case keep: False
      then obtain m where m: "diff = Some m" "\<not> half_diff words i < m"
        by (cases diff) auto
      have "first_min_split words (balance_loop words (i + 1) best diff)"
        using "1.IH"(2) [OF True refl keep] "1.prems" True scan_inv_keep [of words i best m] m
        by simp
      with True keep show ?thesis
        by (subst balance_loop.simps) (simp add: Let_def)
    qed
  next
    case False
    with "1.prems" have i: "i = length words" by simp
    have res: "balance_loop words i best diff = best"
      using False by (subst balance_loop.simps) simp
    show ?thesis
    proof (cases diff)
      case None
      with "1.prems" i show ?thesis by (simp add: scan_inv_def)
    next
      case (Some m)
      with "1.prems"(4) i res show ?thesis
        by (auto simp: scan_inv_def first_min_split_def)
    qed
  qed
qed

lemma balance_loop_start:
  "2 \<le> length words \<Longrightarrow> first_min_split words (balance_loop words 1 1 None)"
  by (rule balance_loop_first_min) (simp_all add: scan_inv_def)

lemma splitBalanced_short:
  "length (body_words line) < 2 \<Longrightarrow>
   splitBalanced line = [join (body_words line)] @ amen_part line"
  by (simp add: splitBalanced_def amen_part_def Let_def)

lemma splitBalanced_long:
  "2 \<le> length (body_words line) \<Longrightarrow>
   splitBalanced line =
     [join (take (balance_loop (body_words line) 1 1 None) (body_words line)),
      join (drop (balance_loop (body_words line) 1 1 None) (body_words line))] @ amen_part line"
  by (simp add: splitBalanced_def amen_part_def Let_def)

lemma line_words_gippeuda_amen:
  "line_words line_gippeuda_amen = [[0xAE30, 0xC058, 0xB2E4], amen]"
  by (simp add: line_words_def line_gippeuda_amen_def trim_def is_space_def split_ws.simps amen_def)

lemma line_words_han_du_se_ne:
  "line_words line_han_du_se_ne = [[0xD55C], [0xB450], [0xC138], [0xB124]]"
  by (simp add: line_words_def line_han_du_se_ne_def trim_def is_space_def split_ws.simps)

lemma splitBalanced_gippeuda_amen:
  "splitBalanced line_gippeuda_amen = [[0xAE30, 0xC058, 0xB2E4], amen]"
  by (simp add: splitBalanced_def body_words_def hasAmen_def line_words_gippeuda_amen)

lemma splitBalanced_han_du_se_ne:
  "splitBalanced line_han_du_se_ne = [[0xD55C, 0x20, 0xB450], [0xC138, 0x20, 0xB124]]"
  by (simp add: splitBalanced_def body_words_def hasAmen_def line_words_han_du_se_ne amen_def
      balance_loop.simps half_diff_def)

text \<open>
  Claim C7. When at least two tokens remain after a trailing "amen" marker is detached,
  \<open>splitBalanced\<close> returns the tokens before and from a split index \<open>b\<close>, each half
  joined with single spaces, where \<open>b\<close> lies between 1 and the token count minus one,
  minimises the absolute difference of the lengths of the two joined halves, and is the
  leftmost index that does; the detached marker follows as the last entry when it was
  present. With fewer than two remaining tokens the result is the joined line as one entry,
  followed by the detached marker when present; the line "gippeuda amen" gives the two
  entries "gippeuda" and "amen".
\<close>

theorem splitBalanced_first_min:
  "(2 \<le> length (body_words line) \<longrightarrow>
      (\<exists>b. first_min_split (body_words line) b \<and>
           splitBalanced line =
             [join (take b (body_words line)), join (drop b (body_words line))] @ amen_part line))
   \<and> (length (body_words line) < 2 \<longrightarrow>
         splitBalanced line = [join (body_words line)] @ amen_part line)
   \<and> splitBalanced line_gippeuda_amen = [[0xAE30, 0xC058, 0xB2E4], amen]"
  using balance_loop_start [of "body_words line"] splitBalanced_long [of line]
    splitBalanced_short [of line] splitBalanced_gippeuda_amen
  by blast

theorem splitBalanced_first_min_witness:
  "2 \<le> length (body_words line_han_du_se_ne)
   \<and> (\<exists>b. first_min_split (body_words line_han_du_se_ne) b \<and>
           splitBalanced line_han_du_se_ne =
             [join (take b (body_words line_han_du_se_ne)),
              join (drop b (body_words line_han_du_se_ne))] @ amen_part line_han_du_se_ne)
   \<and> length (body_words line_gippeuda_amen) < 2
   \<and> splitBalanced line_gippeuda_amen =
       [join (body_words line_gippeuda_amen)] @ amen_part line_gippeuda_amen"
proof -
  have a: "2 \<le> length (body_words line_han_du_se_ne)"
    by (simp add: body_words_def line_words_han_du_se_ne hasAmen_def amen_def)
  have b: "length (body_words line_gippeuda_amen) < 2"
    by (simp add: body_words_def line_words_gippeuda_amen hasAmen_def)
  from a b splitBalanced_first_min [of line_han_du_se_ne]
    splitBalanced_first_min [of line_gippeuda_amen]
  show ?thesis by blast
qed

section \<open>The balanced split keeps the tokens of the line\<close>

lemma tokens_dropWhile: "tokens (dropWhile is_space s) = tokens s"
  by (induction s) (simp_all add: tokens_def split_ws_space)

lemma tokens_word_like: "w \<in> set (tokens s) \<Longrightarrow> word_like w"
  using no_space_in_split [of w s] by (simp add: tokens_def word_like_def)

lemma tokens_snoc_space: "is_space c \<Longrightarrow> tokens (s @ [c]) = tokens s"
proof (induction s rule: split_ws.induct)
  case (1 s)
  let ?tok = "takeWhile (\<lambda>c. \<not> is_space c) s"
  let ?rest = "dropWhile (\<lambda>c. \<not> is_space c) s"
  have sp: "\<not> \<not> is_space c" using "1.prems" by simp
  show ?case
  proof (cases "?rest = []")
    case True
    note t = while_snoc_done [OF True sp]
    have ne: "dropWhile (\<lambda>c. \<not> is_space c) (s @ [c]) \<noteq> []"
      using t by simp
    have "split_ws (s @ [c]) = s # split_ws (dropWhile is_space [c])"
      using split_ws_more [OF ne] t by simp
    then have "split_ws (s @ [c]) = [s, []]"
      using "1.prems" by (simp add: split_ws_Nil)
    moreover have "split_ws s = [s]"
      using split_ws_last [OF True] t by simp
    ultimately show ?thesis by (simp add: tokens_def)
  next
    case False
    note t = while_append_more [OF False, of "[c]"]
    have ne: "dropWhile (\<lambda>c. \<not> is_space c) (s @ [c]) \<noteq> []"
      using t by simp
    have l: "split_ws (s @ [c]) = ?tok # split_ws (dropWhile is_space (?rest @ [c]))"
      using split_ws_more [OF ne] t by simp
    have r: "split_ws s = ?tok # split_ws (dropWhile is_space ?rest)"
      by (rule split_ws_more [OF False])
    show ?thesis
    proof (cases "dropWhile is_space ?rest = []")
      case True
      have e: "dropWhile is_space (?rest @ [c]) = []"
        by (rule dropWhile_snoc_all [OF True "1.prems"])
      have "tokens (s @ [c]) = filter (\<lambda>t. t \<noteq> []) [?tok, []]"
        unfolding tokens_def l e by (simp add: split_ws_Nil)
      moreover have "tokens s = filter (\<lambda>t. t \<noteq> []) [?tok, []]"
        unfolding tokens_def r True by (simp add: split_ws_Nil)
      ultimately show ?thesis by simp
    next
      case ne': False
      have d: "dropWhile is_space (?rest @ [c]) = dropWhile is_space ?rest @ [c]"
        using while_append_more [OF ne', of "[c]"] by simp
      have "tokens (dropWhile is_space ?rest @ [c]) = tokens (dropWhile is_space ?rest)"
        by (rule "1.IH" [OF refl refl False "1.prems"])
      then show ?thesis
        unfolding tokens_def l r d by simp
    qed
  qed
qed

lemma tokens_rev_dropWhile: "tokens (rev (dropWhile is_space (rev s))) = tokens s"
  by (induction s rule: rev_induct) (simp_all add: tokens_snoc_space)

lemma tokens_trim: "tokens (trim s) = tokens s"
  by (simp add: trim_def tokens_rev_dropWhile tokens_dropWhile)

lemma tokens_join: "\<forall>w \<in> set wds. word_like w \<Longrightarrow> tokens (join wds) = wds"
proof (cases "wds = []")
  case True
  then show ?thesis by (simp add: tokens_def split_ws_Nil)
next
  case False
  assume a: "\<forall>w \<in> set wds. word_like w"
  then have "filter (\<lambda>t. t \<noteq> []) wds = wds"
    by (auto simp: word_like_def filter_id_conv)
  with split_ws_join [OF False a] show ?thesis by (simp add: tokens_def)
qed

lemma line_words_tokens:
  "line_words line = (if tokens line = [] then [[]] else tokens line)"
proof (cases "trim line = []")
  case True
  have "tokens line = tokens (trim line)" by (simp add: tokens_trim)
  then have "tokens line = []" unfolding True by (simp add: tokens_def split_ws_Nil)
  then show ?thesis by (simp add: line_words_def True split_ws_Nil)
next
  case False
  have "[] \<notin> set (split_ws (trim line))"
    by (rule split_ws_trimmed [OF False trim_ends [OF False]])
  then have "tokens (trim line) = split_ws (trim line)"
    by (auto simp: tokens_def filter_id_conv)
  then have "tokens line = line_words line"
    by (simp add: tokens_trim line_words_def)
  moreover have "line_words line \<noteq> []" by (simp add: line_words_def split_ws_not_Nil)
  ultimately show ?thesis by simp
qed

lemma tokens_amen: "tokens amen = [amen]"
  by (simp add: tokens_def amen_def split_ws_word is_space_def)

lemma body_words_amen_part:
  "tokens line \<noteq> [] \<Longrightarrow> body_words line @ amen_part line = tokens line"
  by (simp add: body_words_def amen_part_def line_words_tokens hasAmen_def Let_def)
     (metis append_butlast_last_id)

lemma body_words_word_like:
  assumes "tokens line \<noteq> []" "w \<in> set (body_words line)"
  shows "word_like w"
proof -
  from assms(2) have "w \<in> set (body_words line @ amen_part line)" by simp
  then show ?thesis
    unfolding body_words_amen_part [OF assms(1)] by (rule tokens_word_like)
qed

lemma tokens_amen_part: "concat (map tokens (amen_part line)) = amen_part line"
  by (simp add: amen_part_def tokens_amen)

lemma splitBalanced_tokens: "concat (map tokens (splitBalanced line)) = tokens line"
proof (cases "tokens line = []")
  case True
  then have lw: "line_words line = [[]]" by (simp add: line_words_tokens)
  have "splitBalanced line = [[]]"
    by (simp add: splitBalanced_def body_words_def lw hasAmen_def amen_def)
  with True show ?thesis by (simp add: tokens_def split_ws_Nil)
next
  case False
  let ?wds = "body_words line"
  have wl: "\<forall>w \<in> set ?wds. word_like w"
    using body_words_word_like [OF False] by blast
  show ?thesis
  proof (cases "length ?wds < 2")
    case True
    show ?thesis
      unfolding splitBalanced_short [OF True]
      using tokens_join [OF wl] tokens_amen_part [of line] body_words_amen_part [OF False]
      by simp
  next
    case long: False
    then have l: "2 \<le> length ?wds" by simp
    let ?b = "balance_loop ?wds 1 1 None"
    have "\<forall>w \<in> set (take ?b ?wds). word_like w" "\<forall>w \<in> set (drop ?b ?wds). word_like w"
      using wl by (auto dest: in_set_takeD in_set_dropD)
    then have "tokens (join (take ?b ?wds)) = take ?b ?wds" "tokens (join (drop ?b ?wds)) = drop ?b ?wds"
      by (simp_all add: tokens_join)
    then have "concat (map tokens (splitBalanced line))
        = (take ?b ?wds @ drop ?b ?wds) @ amen_part line"
      unfolding splitBalanced_long [OF l] using tokens_amen_part [of line] by simp
    also have "\<dots> = ?wds @ amen_part line" by (simp only: append_take_drop_id)
    finally show ?thesis using body_words_amen_part [OF False] by simp
  qed
qed

lemma splitBalanced_length:
  "1 \<le> length (splitBalanced line) \<and> length (splitBalanced line) \<le> 3"
  by (simp add: splitBalanced_def Let_def)

lemma splitBalanced_only_amen:
  "line_words line = [amen] \<Longrightarrow> splitBalanced line = [[], amen]"
  by (simp add: splitBalanced_def body_words_def hasAmen_def)

text \<open>
  Claim C10. For every line, \<open>splitBalanced\<close> returns between one and three entries,
  and the tokens of the entries, concatenated in order, are exactly the tokens of the line:
  none is dropped, duplicated or moved. When the line consists of the "amen" marker
  alone, the first entry is the empty string.
\<close>

theorem splitBalanced_preserves_tokens:
  "1 \<le> length (splitBalanced line) \<and> length (splitBalanced line) \<le> 3
   \<and> concat (map tokens (splitBalanced line)) = tokens line
   \<and> (line_words line = [amen] \<longrightarrow> splitBalanced line = [[], amen])"
  using splitBalanced_length [of line] splitBalanced_tokens [of line] splitBalanced_only_amen [of line]
  by blast

theorem splitBalanced_preserves_tokens_witness:
  "line_words amen = [amen] \<and> splitBalanced amen = [[], amen]
   \<and> concat (map tokens (splitBalanced line_han_du_se_ne)) = tokens line_han_du_se_ne"
proof -
  have a: "line_words amen = [amen]"
    by (simp add: line_words_def amen_def trim_def is_space_def split_ws.simps)
  from a splitBalanced_preserves_tokens [of amen] splitBalanced_preserves_tokens [of line_han_du_se_ne]
  show ?thesis by blast
qed


section \<open>The text-fit loop stops at the largest size that fits\<close>

lemma shrink_loop_stop:
  assumes "\<not> (font > minFont \<and> overflows layout el)"
  shows "shrink_loop rnd layout minFont el font = Some el"
  by (subst shrink_loop.simps) (simp only: assms if_False)

lemma shrink_loop_step:
  assumes "font > minFont" "overflows layout el"
  shows "shrink_loop rnd layout minFont el font
     = shrink_loop rnd layout minFont (set_fontSize (rnd (font - 1)) el) (rnd (font - 1))"
  by (subst shrink_loop.simps) (simp only: assms simp_thms if_True)

lemma shrink_loop_result:
  assumes "0 \<le> minFont"
    and "\<forall>k<n. rnd (minFont + of_nat k) = minFont + of_nat k"
  shows "\<exists>j\<le>n. shrink_loop rnd layout minFont (base\<lparr>style_fontSize := minFont + of_nat n\<rparr>)
               (minFont + of_nat n) = Some (base\<lparr>style_fontSize := minFont + of_nat j\<rparr>)
     \<and> (\<forall>i. j < i \<and> i \<le> n \<longrightarrow> overflows layout (base\<lparr>style_fontSize := minFont + of_nat i\<rparr>))
     \<and> (j = 0 \<or> \<not> overflows layout (base\<lparr>style_fontSize := minFont + of_nat j\<rparr>))"
  using assms(2)
proof (induction n)
  case 0
  have "shrink_loop rnd layout minFont (base\<lparr>style_fontSize := minFont + of_nat 0\<rparr>)
          (minFont + of_nat 0) = Some (base\<lparr>style_fontSize := minFont + of_nat 0\<rparr>)"
    by (rule shrink_loop_stop) simp
  then show ?case by auto
next
  case (Suc n)
  let ?el = "base\<lparr>style_fontSize := minFont + of_nat (Suc n)\<rparr>"
  show ?case
  proof (cases "overflows layout ?el")
    case False
    then have "shrink_loop rnd layout minFont ?el (minFont + of_nat (Suc n)) = Some ?el"
      by (intro shrink_loop_stop) simp
    with False show ?thesis by (intro exI [of _ "Suc n"]) auto
  next
    case True
    have gt: "minFont + of_nat (Suc n) > minFont" by simp
    have dec: "minFont + of_nat (Suc n) - 1 = minFont + of_nat n" by simp
    have r: "rnd (minFont + of_nat n) = minFont + of_nat n" using Suc.prems by simp
    have nn: "0 \<le> minFont + of_nat n" using assms(1) by simp
    have step: "shrink_loop rnd layout minFont ?el (minFont + of_nat (Suc n))
        = shrink_loop rnd layout minFont (base\<lparr>style_fontSize := minFont + of_nat n\<rparr>)
            (minFont + of_nat n)"
      unfolding shrink_loop_step [OF gt True] dec r using nn by (simp add: set_fontSize_def)
    have "\<forall>k<n. rnd (minFont + of_nat k) = minFont + of_nat k" using Suc.prems by simp
    from Suc.IH [OF this] obtain j where j: "j \<le> n"
      "shrink_loop rnd layout minFont (base\<lparr>style_fontSize := minFont + of_nat n\<rparr>)
         (minFont + of_nat n) = Some (base\<lparr>style_fontSize := minFont + of_nat j\<rparr>)"
      "\<forall>i. j < i \<and> i \<le> n \<longrightarrow> overflows layout (base\<lparr>style_fontSize := minFont + of_nat i\<rparr>)"
      "j = 0 \<or> \<not> overflows layout (base\<lparr>style_fontSize := minFont + of_nat j\<rparr>)"
      by blast
    have all: "\<forall>i. j < i \<and> i \<le> Suc n \<longrightarrow>
        overflows layout (base\<lparr>style_fontSize := minFont + of_nat i\<rparr>)"
    proof (intro allI impI)
      fix i assume i: "j < i \<and> i \<le> Suc n"
      show "overflows layout (base\<lparr>style_fontSize := minFont + of_nat i\<rparr>)"
      proof (cases "i = Suc n")
        case True with \<open>overflows layout ?el\<close> show ?thesis by simp
      next
        case False
        with i have "j < i \<and> i \<le> n" by simp
        with j(3) show ?thesis by blast
      qed
    qed
    from j(1) have "j \<le> Suc n" by simp
    with step j(2,4) all show ?thesis by (intro exI [of _ j]) simp
  qed
qed

lemma autoShrinkFont_result:
  assumes "0 \<le> minFont" "maxFont = minFont + of_nat n"
    and "\<forall>k<n. rnd (minFont + of_nat k) = minFont + of_nat k"
  shows "\<exists>j\<le>n. autoShrinkFont rnd layout el maxFont minFont
            = Some (el\<lparr>style_overflow := ascii ''visible'', style_fontSize := minFont + of_nat j\<rparr>)
     \<and> (\<forall>i. j < i \<and> i \<le> n \<longrightarrow> \<not> fits_at layout el (minFont + of_nat i))
     \<and> (j = 0 \<or> fits_at layout el (minFont + of_nat j))"
proof -
  let ?base = "el\<lparr>style_overflow := ascii ''visible''\<rparr>"
  have nn: "0 \<le> maxFont" using assms(1,2) by simp
  have a: "autoShrinkFont rnd layout el maxFont minFont
      = shrink_loop rnd layout minFont (?base\<lparr>style_fontSize := minFont + of_nat n\<rparr>)
          (minFont + of_nat n)"
    using nn by (simp add: autoShrinkFont_def Let_def set_fontSize_def assms(2))
  from shrink_loop_result [OF assms(1,3), of layout ?base] show ?thesis
    unfolding a fits_at_def by simp
qed

lemma fits_at_wide_text: "fits_at wide_text plain_element f \<longleftrightarrow> f \<le> 37 / 2"
proof -
  have "185 < \<lceil>10 * f\<rceil> \<longleftrightarrow> 185 < 10 * f" by (simp add: less_ceiling_iff)
  also have "\<dots> \<longleftrightarrow> 37 / 2 < f" by auto
  finally have "185 < \<lceil>10 * f\<rceil> \<longleftrightarrow> 37 / 2 < f" .
  moreover have "100 < \<lceil>f\<rceil> \<Longrightarrow> 37 / 2 < f" by (simp add: less_ceiling_iff)
  ultimately show ?thesis
    by (auto simp: fits_at_def overflows_def wide_text_def)
qed

lemma fits_at_too_long_text: "\<not> fits_at too_long_text plain_element f"
  by (simp add: fits_at_def overflows_def too_long_text_def)

lemma overflows_too_long_text: "overflows too_long_text el"
  by (simp add: overflows_def too_long_text_def)

text \<open>
  Claim C8, as amended. Let \<open>minFont\<close> be non-negative, let \<open>maxFont\<close> exceed it by a whole
  number \<open>n\<close>, and let the decrements be exact in the runtime's arithmetic, as they are for
  whole-number bounds of every size that occurs. Then \<open>autoShrinkFont\<close> returns and leaves
  the element with overflow set to visible and a font size \<open>minFont + j\<close> with \<open>j \<le> n\<close>,
  such that none of the larger sizes \<open>minFont + i\<close> up to \<open>maxFont\<close> fits; if one of the
  sizes \<open>minFont, minFont + 1, \<dots>, maxFont\<close> fits then \<open>minFont + j\<close> fits, and if none
  fits then the size is \<open>minFont\<close>. This holds for every layout, in particular for those
  whose overflow is monotone in the font size.
\<close>

theorem autoShrinkFont_largest_fit:
  "0 \<le> minFont \<Longrightarrow> maxFont = minFont + of_nat n \<Longrightarrow>
   \<forall>k<n. rnd (minFont + of_nat k) = minFont + of_nat k \<Longrightarrow>
   \<exists>j\<le>n. autoShrinkFont rnd layout el maxFont minFont
            = Some (el\<lparr>style_overflow := ascii ''visible'', style_fontSize := minFont + of_nat j\<rparr>)
     \<and> (\<forall>i. j < i \<and> i \<le> n \<longrightarrow> \<not> fits_at layout el (minFont + of_nat i))
     \<and> ((\<exists>i\<le>n. fits_at layout el (minFont + of_nat i)) \<longrightarrow> fits_at layout el (minFont + of_nat j))
     \<and> (\<not> (\<exists>i\<le>n. fits_at layout el (minFont + of_nat i)) \<longrightarrow> j = 0)"
proof -
  assume a: "0 \<le> minFont" "maxFont = minFont + of_nat n"
    "\<forall>k<n. rnd (minFont + of_nat k) = minFont + of_nat k"
  from autoShrinkFont_result [OF a, of layout el] obtain j where j: "j \<le> n"
    "autoShrinkFont rnd layout el maxFont minFont
       = Some (el\<lparr>style_overflow := ascii ''visible'', style_fontSize := minFont + of_nat j\<rparr>)"
    "\<forall>i. j < i \<and> i \<le> n \<longrightarrow> \<not> fits_at layout el (minFont + of_nat i)"
    "j = 0 \<or> fits_at layout el (minFont + of_nat j)"
    by blast
  have d: "fits_at layout el (minFont + of_nat j)"
    if "\<exists>i\<le>n. fits_at layout el (minFont + of_nat i)"
  proof -
    from that obtain i where i: "i \<le> n" "fits_at layout el (minFont + of_nat i)" by blast
    with j(3) have "i \<le> j" by (meson not_le)
    show ?thesis
    proof (cases "j = 0")
      case True
      with \<open>i \<le> j\<close> have "i = j" by simp
      with i show ?thesis by simp
    next
      case False with j(4) show ?thesis by simp
    qed
  qed
  have e: "j = 0" if "\<not> (\<exists>i\<le>n. fits_at layout el (minFont + of_nat i))"
    using that j(1,4) by blast
  from j(1,2,3) d e show ?thesis by blast
qed

theorem autoShrinkFont_largest_fit_witness:
  "(0::real) \<le> 16 \<and> (20::real) = 16 + of_nat 4
   \<and> exact 16 = 16 \<and> exact 17 = 17 \<and> exact 18 = 18 \<and> exact 19 = 19
   \<and> fits_at wide_text plain_element (16 + of_nat 2)
   \<and> autoShrinkFont exact wide_text plain_element 20 16
       = Some \<lparr>style_overflow = ascii ''visible'', style_fontSize = 18\<rparr>"
proof -
  have h1: "(0::real) \<le> 16" by simp
  have h2: "(20::real) = 16 + of_nat 4" by simp
  have h3: "\<forall>k<4. exact (16 + of_nat k) = 16 + of_nat k" by (simp add: exact_def)
  from autoShrinkFont_largest_fit [OF h1 h2 h3, of wide_text plain_element]
  obtain j where j: "j \<le> 4"
    "autoShrinkFont exact wide_text plain_element 20 16
       = Some (plain_element\<lparr>style_overflow := ascii ''visible'', style_fontSize := 16 + of_nat j\<rparr>)"
    "\<forall>i. j < i \<and> i \<le> 4 \<longrightarrow> \<not> fits_at wide_text plain_element (16 + of_nat i)"
    "(\<exists>i\<le>4. fits_at wide_text plain_element (16 + of_nat i))
       \<longrightarrow> fits_at wide_text plain_element (16 + of_nat j)"
    by blast
  have f2: "fits_at wide_text plain_element (16 + of_nat 2)"
    unfolding fits_at_wide_text by simp
  then have "\<exists>i\<le>4. fits_at wide_text plain_element (16 + of_nat i)"
    by (intro exI [of _ 2]) simp
  with j(4) have "fits_at wide_text plain_element (16 + of_nat j)" by (rule mp)
  then have "16 + real j \<le> 37 / 2" unfolding fits_at_wide_text .
  then have up: "j \<le> 2" by linarith
  have "\<not> j < 2"
  proof
    assume "j < 2"
    then have "j < 2 \<and> (2::nat) \<le> 4" by simp
    with j(3) have "\<not> fits_at wide_text plain_element (16 + of_nat 2)" by blast
    with f2 show False by contradiction
  qed
  with up have "j = 2" by simp
  with j(2) have r: "autoShrinkFont exact wide_text plain_element 20 16
       = Some \<lparr>style_overflow = ascii ''visible'', style_fontSize = 18\<rparr>"
    by (simp add: plain_element_def)
  have h4: "exact 16 = 16" "exact 17 = 17" "exact 18 = 18" "exact 19 = 19"
    by (simp_all add: exact_def)
  from h1 h2 h4 f2 r show ?thesis by blast
qed

text \<open>
  The claim as it was stated fails for bounds that are not a whole number apart, and for
  negative ones. With the bounds 20.5 and 16 and a text that never fits, the loop passes
  below the minimum and leaves 15.5. With the bounds 2 and -3 the element stays at size 0,
  because the negative sizes are not accepted.
\<close>

theorem autoShrinkFont_below_minimum:
  "(16::real) \<le> 41 / 2
   \<and> autoShrinkFont exact too_long_text plain_element (41 / 2) 16
       = Some \<lparr>style_overflow = ascii ''visible'', style_fontSize = 31 / 2\<rparr>
   \<and> (31 / 2 :: real) < 16
   \<and> (- 3::real) \<le> 2
   \<and> autoShrinkFont exact too_long_text plain_element 2 (- 3)
       = Some \<lparr>style_overflow = ascii ''visible'', style_fontSize = 0\<rparr>
   \<and> (0::real) \<noteq> - 3"
  by (simp add: autoShrinkFont_def shrink_loop.simps overflows_too_long_text set_fontSize_def
      exact_def plain_element_def)

section \<open>Seeking in the video renderer\<close>







section \<open>The transport handlers\<close>

lemma clear_two:
  "timers (clear_timer b (clear_timer a s))
     = filter (\<lambda>t. Some (fst t) \<noteq> a \<and> Some (fst t) \<noteq> b) (timers s)"
  by (cases a; cases b) (auto simp: clear_timer_def intro: filter_cong)

lemma clear_timer_fields:
  "connecting (clear_timer h s) = connecting s" "next_timer (clear_timer h s) = next_timer s"
  "pingTimer (clear_timer h s) = pingTimer s" "pongTimeout (clear_timer h s) = pongTimeout s"
  "sockets (clear_timer h s) = sockets s" "ws (clear_timer h s) = ws s"
  "sent (clear_timer h s) = sent s" "delivered (clear_timer h s) = delivered s"
  by (cases h; simp add: clear_timer_def)+

lemma onclose_hall_timers:
  "timers (onclose_hall cb s) = kept s @ [(next_timer s, Reconnect cb, 3000)]"
  by (simp add: onclose_hall_def set_timer_def clear_two clear_timer_fields kept_def)

lemma onclose_obs_timers:
  assumes "handles_issued s"
  shows "timers (onclose_obs cb s) = kept s @ [(next_timer s, Reconnect cb, 3000)]"
proof -
  have "Some (next_timer s) \<noteq> pingTimer s" "Some (next_timer s) \<noteq> pongTimeout s"
    using assms unfolding handles_issued_def by (metis less_irrefl)+
  then show ?thesis
    by (simp add: onclose_obs_def set_timer_def clear_two kept_def Let_def)
qed

lemma onclose_connecting:
  "connecting (onclose_hall cb s) = False" "connecting (onclose_obs cb s) = False"
  by (simp_all add: onclose_hall_def onclose_obs_def set_timer_def clear_timer_fields Let_def)

lemma kept_cleared:
  "pingTimer s = Some i \<or> pongTimeout s = Some i \<Longrightarrow> i \<notin> fst ` set (kept s)"
  by (auto simp: kept_def)


lemma onclose_pending:
  assumes "handles_issued s" "pingTimer s = Some i \<or> pongTimeout s = Some i"
  shows "i \<notin> pending (onclose_hall cb s)" "i \<notin> pending (onclose_obs cb s)"
proof -
  have "i \<noteq> next_timer s"
    using assms unfolding handles_issued_def by (metis less_irrefl)
  moreover have "i \<notin> fst ` set (kept s)" by (rule kept_cleared [OF assms(2)])
  ultimately show "i \<notin> pending (onclose_hall cb s)" "i \<notin> pending (onclose_obs cb s)"
    by (simp_all add: pending_def onclose_hall_timers onclose_obs_timers [OF assms(1)])
qed

lemma onerror_then_close:
  "timers (onclose_hall cb (onerror s)) = kept s @ [(next_timer s, Reconnect cb, 3000)]"
  "handles_issued s \<Longrightarrow>
   timers (onclose_obs cb (onerror s)) = kept s @ [(next_timer s, Reconnect cb, 3000)]"
proof -
  have k: "kept (onerror s) = kept s" "next_timer (onerror s) = next_timer s"
    by (simp_all add: kept_def onerror_def)
  show "timers (onclose_hall cb (onerror s)) = kept s @ [(next_timer s, Reconnect cb, 3000)]"
    using onclose_hall_timers [of cb "onerror s"] by (simp add: k)
  assume "handles_issued s"
  then have "handles_issued (onerror s)" by (simp add: handles_issued_def onerror_def)
  from onclose_obs_timers [OF this, of cb]
  show "timers (onclose_obs cb (onerror s)) = kept s @ [(next_timer s, Reconnect cb, 3000)]"
    by (simp add: k)
qed

lemma open_state_eq:
  "open_state v = \<lparr>ws = Some 0, connecting = False, pingTimer = Some 1, pongTimeout = None,
      sockets = [(OPEN, 7)], timers = [(1, PingTick, 30000)], next_timer = 2,
      sent = [], delivered = []\<rparr>"
  by (cases v)
     (simp_all add: open_state_def socket_event_def connectWebSocket_def connectWebSocket_hall_def
        connectWebSocket_obs_def new_WebSocket_def initial_def onopen_def set_timer_def
        set_readyState_def readyState_of_def)

lemma awaiting_pong_eq:
  "awaiting_pong v = \<lparr>ws = Some 0, connecting = False, pingTimer = Some 1, pongTimeout = Some 2,
      sockets = [(OPEN, 7)], timers = [(1, PingTick, 30000), (2, PongDeadline, 5000)],
      next_timer = 3, sent = [(0, ascii ''ping'')], delivered = []\<rparr>"
  by (simp add: awaiting_pong_def open_state_eq ping_tick_def readyState_of_def ws_send_def
      set_timer_def)

lemma handles_issued_awaiting_pong: "handles_issued (awaiting_pong v)"
  by (simp add: awaiting_pong_eq handles_issued_def)

text \<open>
  Claim C3. In a state whose timer handles were all issued earlier, the close handler of
  either file resets \<open>connecting\<close>, removes the timers held in \<open>pingTimer\<close> and
  \<open>pongTimeout\<close> from the pending timers, and adds exactly one timer: the reconnection
  with the same callback, 3000 ms later. The error handler changes nothing but
  \<open>connecting\<close>, so it schedules nothing; an error followed by the close gives the one
  reconnection of the close.
\<close>

theorem close_schedules_one_reconnect:
  "handles_issued s \<Longrightarrow>
   connecting (onclose_hall cb s) = False \<and> connecting (onclose_obs cb s) = False
   \<and> timers (onclose_hall cb s) = kept s @ [(next_timer s, Reconnect cb, 3000)]
   \<and> timers (onclose_obs cb s) = kept s @ [(next_timer s, Reconnect cb, 3000)]
   \<and> (\<forall>i. pingTimer s = Some i \<or> pongTimeout s = Some i \<longrightarrow>
          i \<notin> pending (onclose_hall cb s) \<and> i \<notin> pending (onclose_obs cb s))
   \<and> onerror s = s\<lparr>connecting := False\<rparr>
   \<and> timers (onclose_hall cb (onerror s)) = kept s @ [(next_timer s, Reconnect cb, 3000)]
   \<and> timers (onclose_obs cb (onerror s)) = kept s @ [(next_timer s, Reconnect cb, 3000)]"
  using onclose_connecting [where cb = cb and s = s] onclose_hall_timers [where cb = cb and s = s]
    onclose_obs_timers [where cb = cb and s = s]
    onclose_pending [where cb = cb and s = s] onerror_then_close [where cb = cb and s = s]
  by (simp add: onerror_def)

theorem close_schedules_one_reconnect_witness:
  "handles_issued (awaiting_pong Hall)
   \<and> timers (awaiting_pong Hall) = [(1, PingTick, 30000), (2, PongDeadline, 5000)]
   \<and> timers (onclose_hall 7 (awaiting_pong Hall)) = [(3, Reconnect 7, 3000)]
   \<and> timers (onclose_obs 7 (awaiting_pong Obs)) = [(3, Reconnect 7, 3000)]
   \<and> timers (onerror (awaiting_pong Hall)) = timers (awaiting_pong Hall)"
proof -
  have k: "kept (awaiting_pong v) = []" "next_timer (awaiting_pong v) = 3" for v
    by (simp_all add: kept_def awaiting_pong_eq)
  note h = close_schedules_one_reconnect
    [where s = "awaiting_pong Hall" and cb = 7, OF handles_issued_awaiting_pong]
  note b = close_schedules_one_reconnect
    [where s = "awaiting_pong Obs" and cb = 7, OF handles_issued_awaiting_pong]
  have 1: "timers (onclose_hall 7 (awaiting_pong Hall)) = [(3, Reconnect 7, 3000)]"
    using h [THEN conjunct2, THEN conjunct2, THEN conjunct1] by (simp only: k append_Nil)
  have 2: "timers (onclose_obs 7 (awaiting_pong Obs)) = [(3, Reconnect 7, 3000)]"
    using b [THEN conjunct2, THEN conjunct2, THEN conjunct2, THEN conjunct1]
    by (simp only: k append_Nil)
  have 3: "timers (onerror (awaiting_pong Hall)) = timers (awaiting_pong Hall)"
    using h [THEN conjunct2, THEN conjunct2, THEN conjunct2, THEN conjunct2, THEN conjunct2,
        THEN conjunct1]
    by simp
  have 4: "timers (awaiting_pong Hall) = [(1, PingTick, 30000), (2, PongDeadline, 5000)]"
    by (simp add: awaiting_pong_eq)
  from handles_issued_awaiting_pong [of Hall] 1 2 3 4 show ?thesis by blast
qed

lemma pong_cancels:
  "pongTimeout s = Some i \<Longrightarrow> i \<notin> pending (clear_timer (pongTimeout s) s)"
  by (auto simp: pending_def clear_timer_def)

text \<open>
  Claim C2. On the message \<^verbatim>\<open>"pong"\<close> the handler cancels the timer held in
  \<open>pongTimeout\<close> and calls no callback; every other message is passed to the callback
  once, unchanged, and nothing else changes.
\<close>

theorem onmessage_pong_or_forward:
  "onmessage cb (Text (ascii ''pong'')) s = clear_timer (pongTimeout s) s
   \<and> delivered (onmessage cb (Text (ascii ''pong'')) s) = delivered s
   \<and> (\<forall>i. pongTimeout s = Some i \<longrightarrow> i \<notin> pending (onmessage cb (Text (ascii ''pong'')) s))
   \<and> (d \<noteq> Text (ascii ''pong'') \<longrightarrow> onmessage cb d s = s\<lparr>delivered := delivered s @ [(cb, d)]\<rparr>)"
proof -
  have a: "onmessage cb (Text (ascii ''pong'')) s = clear_timer (pongTimeout s) s"
    by (simp add: onmessage_def)
  have b: "delivered (onmessage cb (Text (ascii ''pong'')) s) = delivered s"
    unfolding a by (rule clear_timer_fields)
  have c: "\<forall>i. pongTimeout s = Some i \<longrightarrow> i \<notin> pending (onmessage cb (Text (ascii ''pong'')) s)"
    unfolding a using pong_cancels [of s] by blast
  have d: "d \<noteq> Text (ascii ''pong'') \<longrightarrow> onmessage cb d s = s\<lparr>delivered := delivered s @ [(cb, d)]\<rparr>"
    by (simp add: onmessage_def)
  from a b c d show ?thesis by blast
qed

theorem onmessage_pong_or_forward_witness:
  "pongTimeout (awaiting_pong Hall) = Some 2
   \<and> 2 \<notin> pending (onmessage 7 (Text (ascii ''pong'')) (awaiting_pong Hall))
   \<and> Text (ascii ''hello'') \<noteq> Text (ascii ''pong'')
   \<and> delivered (onmessage 7 (Text (ascii ''hello'')) (awaiting_pong Hall)) = [(7, Text (ascii ''hello''))]"
proof -
  have n: "Text (ascii ''hello'') \<noteq> Text (ascii ''pong'')" by (simp add: ascii_def)
  have p: "pongTimeout (awaiting_pong Hall) = Some 2" "delivered (awaiting_pong Hall) = []"
    by (simp_all add: awaiting_pong_eq)
  note t = onmessage_pong_or_forward
      [where cb = 7 and s = "awaiting_pong Hall" and d = "Text (ascii ''hello'')"]
  have 1: "2 \<notin> pending (onmessage 7 (Text (ascii ''pong'')) (awaiting_pong Hall))"
    using t [THEN conjunct2, THEN conjunct2, THEN conjunct1] p(1) by blast
  have "onmessage 7 (Text (ascii ''hello'')) (awaiting_pong Hall)
      = (awaiting_pong Hall)\<lparr>delivered := delivered (awaiting_pong Hall) @ [(7, Text (ascii ''hello''))]\<rparr>"
    using t [THEN conjunct2, THEN conjunct2, THEN conjunct2] n by blast
  then have 2: "delivered (onmessage 7 (Text (ascii ''hello'')) (awaiting_pong Hall))
      = [(7, Text (ascii ''hello''))]"
    by (simp add: p(2))
  from p(1) 1 n 2 show ?thesis by blast
qed

lemma connectWebSocket_obs_noop:
  "connecting s \<or> readyState_of s = Some OPEN \<Longrightarrow> connectWebSocket_obs cb s = s"
  by (auto simp: connectWebSocket_obs_def readyState_of_def split: option.splits)

lemma connectWebSocket_hall_noop:
  "connecting s \<Longrightarrow> connectWebSocket_hall cb s = s"
  by (simp add: connectWebSocket_hall_def)

text \<open>
  Claim C1 at the hall page. After the page has connected and its socket has opened,
  \<open>connecting\<close> is false and the socket is open; a further call of the hall
  \<^verbatim>\<open>connectWebSocket\<close> creates a second socket, makes \<^verbatim>\<open>ws\<close> refer to it and sets
  \<open>connecting\<close>. The OBS function returns without a change in the same situation.
\<close>

theorem connectWebSocket_hall_second_socket:
  "\<not> connecting (open_state Hall) \<and> readyState_of (open_state Hall) = Some OPEN
   \<and> sockets (connectWebSocket_hall 7 (open_state Hall)) = [(OPEN, 7), (CONNECTING, 7)]
   \<and> ws (connectWebSocket_hall 7 (open_state Hall)) = Some 1
   \<and> connecting (connectWebSocket_hall 7 (open_state Hall))
   \<and> connectWebSocket_obs 7 (open_state Obs) = open_state Obs"
  by (simp add: open_state_eq readyState_of_def connectWebSocket_hall_def
      connectWebSocket_obs_def new_WebSocket_def)

lemma handles_issued_initial: "handles_issued initial"
  by (simp add: handles_issued_def initial_def)

lemma handles_issued_clear: "handles_issued s \<Longrightarrow> handles_issued (clear_timer h s)"
  by (cases h) (auto simp: handles_issued_def clear_timer_def)

lemma handles_issued_preserved:
  assumes "handles_issued s"
  shows "handles_issued (connectWebSocket_hall cb s)" "handles_issued (connectWebSocket_obs cb s)"
    "handles_issued (onopen s)" "handles_issued (onerror s)"
    "handles_issued (onclose_hall cb s)" "handles_issued (onclose_obs cb s)"
    "handles_issued (onmessage cb d s)" "handles_issued (ping_tick s)"
    "handles_issued (pong_deadline s)"
proof -
  show "handles_issued (connectWebSocket_hall cb s)" "handles_issued (connectWebSocket_obs cb s)"
    using assms
    by (auto simp: handles_issued_def connectWebSocket_hall_def connectWebSocket_obs_def
        new_WebSocket_def)
  show "handles_issued (onopen s)"
    using assms by (auto simp: handles_issued_def onopen_def set_timer_def less_Suc_eq)
  show "handles_issued (onerror s)"
    using assms by (simp add: handles_issued_def onerror_def)
  show "handles_issued (onclose_hall cb s)"
    using assms
    by (auto simp: handles_issued_def onclose_hall_timers kept_def less_Suc_eq)
       (auto simp: onclose_hall_def set_timer_def clear_timer_fields less_Suc_eq)
  show "handles_issued (onclose_obs cb s)"
    using assms
    by (auto simp: handles_issued_def onclose_obs_timers kept_def less_Suc_eq)
       (auto simp: onclose_obs_def set_timer_def clear_timer_fields less_Suc_eq Let_def)
  show "handles_issued (onmessage cb d s)"
    using assms handles_issued_clear [OF assms]
    by (auto simp: onmessage_def) (simp add: handles_issued_def)
  show "handles_issued (ping_tick s)"
    using assms
    by (auto simp: handles_issued_def ping_tick_def set_timer_def ws_send_def less_Suc_eq
        split: option.splits)
  show "handles_issued (pong_deadline s)"
    using assms
    by (auto simp: handles_issued_def pong_deadline_def ws_close_def split: option.splits)
qed

section \<open>The dispatcher\<close>

lemma key_of_styled: "get_style (styled s) = Inr (Some (JStr s))"
  "to_property_key (Some (JStr s)) = Inr s"
  by (simp_all add: styled_def get_style_def own_property_def to_property_key_def)

lemma lookups:
  "get_property renderMap_obs (ascii ''constructor'') = ObjectMember (ascii ''constructor'')"
  "get_property renderMap_hall (ascii ''constructor'') = ObjectMember (ascii ''constructor'')"
  "get_property renderMap_obs (ascii ''__proto__'') = ObjectMember (ascii ''__proto__'')"
  "get_property renderMap_hall (ascii ''__proto__'') = ObjectMember (ascii ''__proto__'')"
  "get_property renderMap_obs (ascii ''blank'') = Renderer RenderBlank"
  "get_property renderMap_hall (ascii ''blank'') = Renderer RenderBlank"
  "get_property renderMap_obs (ascii ''nonexistent'') = Undefined"
  "get_property renderMap_hall (ascii ''nonexistent'') = Undefined"
  by (simp_all add: get_property_def renderMap_obs_def renderMap_hall_def
      object_prototype_members_def ascii_def)

lemma dispatch_null: "dispatch_obs rs JNull p = Inl TypeError" "dispatch_hall rs JNull p = Inl TypeError"
  by (simp_all add: dispatch_obs_def dispatch_hall_def get_style_def)

lemma dispatch_constructor:
  "dispatch_obs rs (styled (ascii ''constructor'')) p = Inr p"
  "dispatch_hall rs (styled (ascii ''constructor'')) p = Inr p"
  by (simp_all add: dispatch_obs_def dispatch_hall_def key_of_styled lookups call_obs_def
      call_hall_def call_object_member_def)

lemma dispatch_proto:
  "dispatch_obs rs (styled (ascii ''__proto__'')) p = Inl TypeError"
  "dispatch_hall rs (styled (ascii ''__proto__'')) p = Inl TypeError"
  by (simp_all add: dispatch_obs_def dispatch_hall_def key_of_styled lookups call_obs_def
      call_hall_def call_object_member_def)
     (simp_all add: ascii_def)

lemma dispatch_blank:
  "dispatch_obs rs (styled (ascii ''blank'')) p = Inr (clearScreen_obs p)"
  "dispatch_hall rs (styled (ascii ''blank'')) p = Inr (clearScreen_hall p)"
  by (simp_all add: dispatch_obs_def dispatch_hall_def key_of_styled lookups call_obs_def
      call_hall_def renderBlank_obs_def renderBlank_hall_def)

lemma dispatch_nonexistent:
  "dispatch_obs rs (styled (ascii ''nonexistent'')) p = Inr (clearScreen_obs p)"
  "dispatch_hall rs (styled (ascii ''nonexistent'')) p = Inr (clearScreen_hall p)"
  by (simp_all add: dispatch_obs_def dispatch_hall_def key_of_styled lookups call_obs_def
      call_hall_def renderBlank_obs_def renderBlank_hall_def)

lemma verse_page_not_blank:
  "clearScreen_obs verse_page \<noteq> verse_page" "clearScreen_hall verse_page \<noteq> verse_page"
  by (simp_all add: clearScreen_obs_def clearScreen_hall_def verse_page_def ascii_def)

lemma unknown_style_blank:
  assumes "get_style data = Inr style" "to_property_key style = Inr key"
    and "map_of renderMap_hall key = None" "key \<notin> set object_prototype_members"
  shows "dispatch_obs rs data p = Inr (clearScreen_obs p)"
    and "dispatch_hall rs data p = Inr (clearScreen_hall p)"
proof -
  have "map_of renderMap_obs key = None"
    using assms(3) by (auto simp: renderMap_obs_def renderMap_hall_def split: if_splits)
  then have o: "get_property renderMap_obs key = Undefined"
    using assms(4) by (simp add: get_property_def)
  have h: "get_property renderMap_hall key = Undefined"
    using assms(3,4) by (simp add: get_property_def)
  show "dispatch_obs rs data p = Inr (clearScreen_obs p)"
    by (simp add: dispatch_obs_def assms(1,2) o renderBlank_obs_def)
  show "dispatch_hall rs data p = Inr (clearScreen_hall p)"
    by (simp add: dispatch_hall_def assms(1,2) h call_hall_def renderBlank_hall_def)
qed

text \<open>
  Claim C4 on the code. The text \<^verbatim>\<open>null\<close> parses, and then both callbacks throw on
  \<^verbatim>\<open>data.style\<close>. The style \<^verbatim>\<open>"constructor"\<close> is not a key of either table, yet a
  payload with it leaves a page that shows a verse as it is, where a payload with style
  \<^verbatim>\<open>"blank"\<close> clears it; and the style \<^verbatim>\<open>"__proto__"\<close> makes both callbacks throw.
\<close>

theorem dispatch_fallback_throws:
  "parse_null_only (ascii ''null'') = Some JNull
   \<and> main_obs parse_null_only idle_renderers (ascii ''null'') verse_page = Inl TypeError
   \<and> main_hall parse_null_only idle_renderers (ascii ''null'') verse_page = Inl TypeError
   \<and> map_of renderMap_hall (ascii ''constructor'') = None
   \<and> map_of renderMap_obs (ascii ''constructor'') = None
   \<and> dispatch_obs idle_renderers (styled (ascii ''constructor'')) verse_page = Inr verse_page
   \<and> dispatch_hall idle_renderers (styled (ascii ''constructor'')) verse_page = Inr verse_page
   \<and> dispatch_obs idle_renderers (styled (ascii ''blank'')) verse_page
       = Inr (clearScreen_obs verse_page)
   \<and> dispatch_hall idle_renderers (styled (ascii ''blank'')) verse_page
       = Inr (clearScreen_hall verse_page)
   \<and> clearScreen_obs verse_page \<noteq> verse_page
   \<and> clearScreen_hall verse_page \<noteq> verse_page
   \<and> dispatch_obs idle_renderers (styled (ascii ''__proto__'')) verse_page = Inl TypeError
   \<and> dispatch_hall idle_renderers (styled (ascii ''__proto__'')) verse_page = Inl TypeError"
proof -
  have p: "parse_null_only (ascii ''null'') = Some JNull" by (simp add: parse_null_only_def)
  have n: "main_obs parse_null_only idle_renderers (ascii ''null'') verse_page = Inl TypeError"
    "main_hall parse_null_only idle_renderers (ascii ''null'') verse_page = Inl TypeError"
    by (simp_all add: main_obs_def main_hall_def p dispatch_null)
  have m: "map_of renderMap_hall (ascii ''constructor'') = None"
    "map_of renderMap_obs (ascii ''constructor'') = None"
    by (simp_all add: renderMap_hall_def renderMap_obs_def ascii_def)
  from p n m dispatch_constructor [of idle_renderers verse_page]
    dispatch_blank [of idle_renderers verse_page] verse_page_not_blank
    dispatch_proto [of idle_renderers verse_page]
  show ?thesis by blast
qed

text \<open>
  Claim C5. When \<^verbatim>\<open>JSON.parse\<close> throws on the raw message, both callbacks return after
  writing one line to the console: no renderer runs, and the display style, class and
  content of the container, and the cover background, are as before.
\<close>

theorem malformed_json_keeps_slide:
  "JSON_parse raw = None \<Longrightarrow>
   main_obs JSON_parse rs raw p = Inr (p\<lparr>console := console p @ [JSON_parse_failed]\<rparr>)
   \<and> main_hall JSON_parse rs raw p = Inr (p\<lparr>console := console p @ [JSON_parse_failed]\<rparr>)"
  by (simp add: main_obs_def main_hall_def)

theorem malformed_json_keeps_slide_witness:
  "parse_null_only (ascii ''{oops'') = None
   \<and> main_obs parse_null_only idle_renderers (ascii ''{oops'') verse_page
       = Inr (verse_page\<lparr>console := [JSON_parse_failed]\<rparr>)
   \<and> main_hall parse_null_only idle_renderers (ascii ''{oops'') verse_page
       = Inr (verse_page\<lparr>console := [JSON_parse_failed]\<rparr>)"
proof -
  have n: "parse_null_only (ascii ''{oops'') = None"
    by (simp add: parse_null_only_def ascii_def)
  have c: "console verse_page = []" by (simp add: verse_page_def)
  from malformed_json_keeps_slide
      [where JSON_parse = parse_null_only and raw = "ascii ''{oops''" and rs = idle_renderers
         and p = verse_page, OF n]
    n c
  show ?thesis by simp
qed


end
